theory Spec2Isabelle
  imports Complex_Main "HOL-Library.Sublist"
begin

section \<open>JavaScript values\<close>

text \<open>
  The edge function \<^verbatim>\<open>supabase/functions/generate-idea/index.ts\<close> is modelled function by
  function. A JavaScript string is a sequence of UTF-16 code units; it is modelled as the
  list of their numeric values, and \<open>js\<close> turns a literal of the program into that list.
\<close>

type_synonym jsstring = "nat list"

definition js :: "string \<Rightarrow> jsstring" where
  "js s = map of_char s"

text \<open>
  A JavaScript number is an IEEE double: not-a-number, the two infinities, or a finite
  value. Every finite double is a rational, and comparison, \<^verbatim>\<open>Math.min\<close> and
  \<^verbatim>\<open>Math.max\<close> are exact on doubles, so finite numbers are modelled by \<open>rat\<close>.
  The sign of zero is not modelled.
\<close>

datatype jsnum = NaN | NegInf | Fin rat | PosInf

text \<open>The values \<^verbatim>\<open>JSON.parse\<close> and property reads can produce.\<close>

datatype jsval =
    JUndefined
  | JNull
  | JBool bool
  | JNum jsnum
  | JStr jsstring
  | JArr "jsval list"
  | JObj "(jsstring \<times> jsval) list"

text \<open>
  What a \<^verbatim>\<open>throw\<close> or a rejected promise carries. A computation that can throw gives
  \<open>Inl\<close> of the exception or \<open>Inr\<close> of its value, and \<open>bind_exn\<close> is the sequencing
  of two statements.
\<close>

datatype exn = TypeError | SyntaxError | Error | Rejected

definition bind_exn :: "exn + 'a \<Rightarrow> ('a \<Rightarrow> exn + 'b) \<Rightarrow> exn + 'b" where
  "bind_exn r f = (case r of Inl e \<Rightarrow> Inl e | Inr v \<Rightarrow> f v)"

text \<open>The relational operator \<^verbatim>\<open><\<close> on numbers: false as soon as one side is NaN.\<close>

fun js_lt :: "jsnum \<Rightarrow> jsnum \<Rightarrow> bool" where
  "js_lt NaN b = False"
| "js_lt a NaN = False"
| "js_lt a NegInf = False"
| "js_lt NegInf b = True"
| "js_lt PosInf b = False"
| "js_lt a PosInf = True"
| "js_lt (Fin x) (Fin y) = (x < y)"

definition js_gt :: "jsnum \<Rightarrow> jsnum \<Rightarrow> bool" where
  "js_gt a b = js_lt b a"

definition isNaN :: "jsnum \<Rightarrow> bool" where
  "isNaN n = (n = NaN)"

definition Math_max :: "jsnum \<Rightarrow> jsnum \<Rightarrow> jsnum" where
  "Math_max a b = (if a = NaN \<or> b = NaN then NaN else if js_lt a b then b else a)"

definition Math_min :: "jsnum \<Rightarrow> jsnum \<Rightarrow> jsnum" where
  "Math_min a b = (if a = NaN \<or> b = NaN then NaN else if js_lt b a then b else a)"

text \<open>
  White space as \<^verbatim>\<open>String.prototype.trim\<close> and \<^verbatim>\<open>parseInt\<close> read it: the
  ECMAScript WhiteSpace and LineTerminator code points, all of them single code units.
\<close>

definition is_js_whitespace :: "nat \<Rightarrow> bool" where
  "is_js_whitespace c =
     (c = 9 \<or> c = 10 \<or> c = 11 \<or> c = 12 \<or> c = 13 \<or> c = 32 \<or> c = 160 \<or> c = 5760
      \<or> (8192 \<le> c \<and> c \<le> 8202) \<or> c = 8232 \<or> c = 8233 \<or> c = 8239 \<or> c = 8287
      \<or> c = 12288 \<or> c = 65279)"

definition trim :: "jsstring \<Rightarrow> jsstring" where
  "trim s = rev (dropWhile is_js_whitespace (rev (dropWhile is_js_whitespace s)))"

definition is_digit :: "nat \<Rightarrow> bool" where
  "is_digit c = (48 \<le> c \<and> c \<le> 57)"

definition digits_value :: "jsstring \<Rightarrow> nat" where
  "digits_value ds = foldl (\<lambda>a d. 10 * a + (d - 48)) 0 ds"

text \<open>
  The Number value of a rational: the nearest double, ties to the even significand, and
  an infinity from \<open>2^1024 - 2^970\<close> on. A double is an integer of at most 53 bits
  times \<open>2^e\<close> with \<open>e\<close> from -1074 on. For \<open>a \<ge> 0\<close>, \<open>ulp_exp a (- 1074)\<close> is the
  least such \<open>e\<close> with \<open>a < 2^(e + 53)\<close>; the multiple of \<open>2^e\<close> nearest to \<open>a\<close> is
  the double.
\<close>

definition pow2 :: "int \<Rightarrow> rat" where
  "pow2 e = (if 0 \<le> e then 2 ^ nat e else 1 / 2 ^ nat (- e))"

function ulp_exp :: "rat \<Rightarrow> int \<Rightarrow> int" where
  "ulp_exp a e = (if a < pow2 (e + 53) then e else ulp_exp a (e + 1))"
  by pat_completeness auto

termination
proof (relation "measure (\<lambda>(a, e). nat (\<lceil>a\<rceil> - e))")
  show "wf (measure (\<lambda>(a, e). nat (\<lceil>a\<rceil> - e)))" by simp
next
  fix a :: rat and e :: int
  assume h: "\<not> a < pow2 (e + 53)"
  have p: "of_int n < pow2 n" for n
  proof (cases "0 \<le> n")
    case True
    have "(of_nat (nat n) :: rat) < 2 ^ nat n" by (rule of_nat_less_two_power)
    then show ?thesis using True by (simp add: pow2_def)
  next
    case False
    then have "(of_int n :: rat) < 0" by simp
    moreover have "(0::rat) < pow2 n" by (simp add: pow2_def)
    ultimately show ?thesis by simp
  qed
  have "of_int (e + 53) < a" using p[of "e + 53"] h by simp
  also have "a \<le> of_int \<lceil>a\<rceil>" by simp
  finally have "e + 53 < \<lceil>a\<rceil>" by simp
  then show "((a, e + 1), (a, e)) \<in> measure (\<lambda>(a, e). nat (\<lceil>a\<rceil> - e))" by simp
qed

declare ulp_exp.simps [simp del]

definition to_number :: "rat \<Rightarrow> jsnum" where
  "to_number x =
     (let a = \<bar>x\<bar>;
          e = ulp_exp a (- 1074);
          s = a / pow2 e;
          q = \<lfloor>s\<rfloor>;
          m = (if 1 / 2 < s - of_int q \<or> (s - of_int q = 1 / 2 \<and> odd q) then q + 1 else q);
          v = of_int m * pow2 e
      in if 2 ^ 1024 \<le> v then (if x < 0 then NegInf else PosInf)
         else Fin (if x < 0 then - v else v))"

definition to_double :: "int \<Rightarrow> jsnum" where
  "to_double k = to_number (of_int k)"

text \<open>
  \<^verbatim>\<open>parseInt(s, 10)\<close>: leading white space is skipped, one sign is read, then the longest
  run of decimal digits; no digit gives NaN. The result is the Number value of the
  integer the digits denote, as V8 (the engine of the Deno runtime the function runs
  on) computes it; the standard lets an engine replace the digits after the twentieth
  by zeros.
\<close>

definition parseInt :: "jsstring \<Rightarrow> jsnum" where
  "parseInt str =
     (let s = dropWhile is_js_whitespace str;
          neg = (s \<noteq> [] \<and> hd s = 45);
          z = takeWhile is_digit (if s \<noteq> [] \<and> (hd s = 43 \<or> hd s = 45) then tl s else s)
      in if z = [] then NaN
         else to_double ((if neg then - 1 else 1) * int (digits_value z)))"

text \<open>
  \<^verbatim>\<open>String(val)\<close>. The decimal rendering of a number (Number::toString) belongs to the
  runtime and is the parameter \<open>nts\<close>.

  An object or an array is converted by OrdinaryToPrimitive, which calls the object's
  \<^verbatim>\<open>toString\<close> and then its \<^verbatim>\<open>valueOf\<close>, each only when it is callable, and throws
  a TypeError when neither gives a primitive. The values at hand are those of
  \<^verbatim>\<open>JSON.parse\<close>, none of which is callable. So an object with an own member named
  \<^verbatim>\<open>toString\<close> throws: the member hides \<^verbatim>\<open>Object.prototype.toString\<close>, and
  \<^verbatim>\<open>valueOf\<close>, own or inherited, gives no primitive. Every other object is
  \<^verbatim>\<open>[object Object]\<close>. An array has no own member of these names and is converted by
  \<^verbatim>\<open>Array.prototype.join\<close>: its elements joined by commas, null and undefined
  elements rendered empty, every other element by \<^verbatim>\<open>String\<close>, whose exception is the
  exception of the whole.
\<close>

fun ToString :: "(jsnum \<Rightarrow> jsstring) \<Rightarrow> jsval \<Rightarrow> exn + jsstring"
  and join_elems :: "(jsnum \<Rightarrow> jsstring) \<Rightarrow> jsval list \<Rightarrow> exn + jsstring" where
  "ToString nts JUndefined = Inr (js ''undefined'')"
| "ToString nts JNull = Inr (js ''null'')"
| "ToString nts (JBool b) = Inr (if b then js ''true'' else js ''false'')"
| "ToString nts (JNum n) = Inr (nts n)"
| "ToString nts (JStr s) = Inr s"
| "ToString nts (JArr xs) = join_elems nts xs"
| "ToString nts (JObj kvs) =
     (if map_of kvs (js ''toString'') \<noteq> None then Inl TypeError
      else Inr (js ''[object Object]''))"
| "join_elems nts [] = Inr []"
| "join_elems nts (x # xs) =
     bind_exn (if x = JUndefined \<or> x = JNull then Inr [] else ToString nts x) (\<lambda>s.
       if xs = [] then Inr s
       else bind_exn (join_elems nts xs) (\<lambda>rest. Inr (s @ 44 # rest)))"

text \<open>Truthiness, as \<^verbatim>\<open>!\<close> and \<^verbatim>\<open>||\<close> read a value.\<close>

fun truthy :: "jsval \<Rightarrow> bool" where
  "truthy JUndefined = False"
| "truthy JNull = False"
| "truthy (JBool b) = b"
| "truthy (JNum n) = (n \<noteq> NaN \<and> n \<noteq> Fin 0)"
| "truthy (JStr s) = (s \<noteq> [])"
| "truthy (JArr xs) = True"
| "truthy (JObj kvs) = True"

fun Array_isArray :: "jsval \<Rightarrow> bool" where
  "Array_isArray (JArr xs) = True"
| "Array_isArray v = False"

text \<open>
  A property read \<^verbatim>\<open>v.k\<close> or \<^verbatim>\<open>v[k]\<close>. Reading from null or undefined throws a
  TypeError. An object yields its own property; its list holds each key once in what
  \<^verbatim>\<open>JSON.parse\<close> builds, and the first entry counts. Arrays and strings have their
  length and their indices. Properties inherited from the built-in prototypes are not
  modelled: none of the names the handler reads (domain, audience, difficulty, mode,
  skills, constraints, time_available_days, multi_idea_count, choices, 0, message,
  content, length, ideas) is one, except length.
\<close>

definition array_index :: "jsstring \<Rightarrow> nat option" where
  "array_index k =
     (if k \<noteq> [] \<and> list_all is_digit k \<and> (hd k \<noteq> 48 \<or> length k = 1)
      then Some (digits_value k) else None)"

fun get_prop :: "jsval \<Rightarrow> jsstring \<Rightarrow> exn + jsval" where
  "get_prop JUndefined k = Inl TypeError"
| "get_prop JNull k = Inl TypeError"
| "get_prop (JBool b) k = Inr JUndefined"
| "get_prop (JNum n) k = Inr JUndefined"
| "get_prop (JStr s) k =
     (if k = js ''length'' then Inr (JNum (Fin (of_nat (length s))))
      else case array_index k of
        Some i \<Rightarrow> Inr (if i < length s then JStr [s ! i] else JUndefined)
      | None \<Rightarrow> Inr JUndefined)"
| "get_prop (JArr xs) k =
     (if k = js ''length'' then Inr (JNum (Fin (of_nat (length xs))))
      else case array_index k of
        Some i \<Rightarrow> Inr (if i < length xs then xs ! i else JUndefined)
      | None \<Rightarrow> Inr JUndefined)"
| "get_prop (JObj kvs) k =
     Inr (case map_of kvs k of Some v \<Rightarrow> v | None \<Rightarrow> JUndefined)"

section \<open>The runtime's \<^verbatim>\<open>JSON.parse\<close>\<close>

text \<open>
  \<^verbatim>\<open>JSON.parse\<close> is a function of the runtime; the handler calls it on the model's
  reply. It is modelled as a recursive-descent reader of the JSON grammar (ECMA-404):
  \<open>None\<close> is the SyntaxError. A number is the Number value of its decimal text. The
  mutually recursive readers take fuel, one unit per nested call; the length of the text is
  enough, since a value never needs more units than it has characters (lemma
  \<open>JSON_parse_fuel\<close> below).
\<close>

definition is_json_ws :: "nat \<Rightarrow> bool" where
  "is_json_ws c = (c = 32 \<or> c = 9 \<or> c = 10 \<or> c = 13)"

definition skip_ws :: "jsstring \<Rightarrow> jsstring" where
  "skip_ws cs = dropWhile is_json_ws cs"

definition hex_digit :: "nat \<Rightarrow> nat option" where
  "hex_digit c =
     (if 48 \<le> c \<and> c \<le> 57 then Some (c - 48)
      else if 65 \<le> c \<and> c \<le> 70 then Some (c - 55)
      else if 97 \<le> c \<and> c \<le> 102 then Some (c - 87)
      else None)"

definition hex4 :: "jsstring \<Rightarrow> nat option" where
  "hex4 cs =
     (case map hex_digit (take 4 cs) of
        [Some a, Some b, Some c, Some d] \<Rightarrow> Some (((a * 16 + b) * 16 + c) * 16 + d)
      | _ \<Rightarrow> None)"

definition escape_char :: "nat \<Rightarrow> nat option" where
  "escape_char e =
     (if e = 34 then Some 34 else if e = 92 then Some 92 else if e = 47 then Some 47
      else if e = 98 then Some 8 else if e = 102 then Some 12 else if e = 110 then Some 10
      else if e = 114 then Some 13 else if e = 116 then Some 9 else None)"

text \<open>The characters of a string after its opening quote, up to the closing one.\<close>

fun parse_chars :: "jsstring \<Rightarrow> jsstring \<Rightarrow> (jsstring \<times> jsstring) option" where
  "parse_chars acc [] = None"
| "parse_chars acc (c # cs) =
     (if c = 34 then Some (rev acc, cs)
      else if c = 92 then
        (case cs of
           [] \<Rightarrow> None
         | e # r \<Rightarrow>
             if e = 117 then
               (case hex4 r of None \<Rightarrow> None | Some u \<Rightarrow> parse_chars (u # acc) (drop 4 r))
             else
               (case escape_char e of None \<Rightarrow> None | Some x \<Rightarrow> parse_chars (x # acc) r))
      else if c < 32 then None
      else parse_chars (c # acc) cs)"

text \<open>
  A number: \<^verbatim>\<open>-?(0|[1-9][0-9]*)(\.[0-9]+)?([eE][+-]?[0-9]+)?\<close>. Each part is read
  with the text that follows it: the integer digits (no leading zero before another
  digit), the optional fraction digits, the optional exponent with its sign.
\<close>

definition read_int :: "jsstring \<Rightarrow> (jsstring \<times> jsstring) option" where
  "read_int s =
     (let ip = takeWhile is_digit s
      in if ip = [] \<or> (hd ip = 48 \<and> 1 < length ip) then None
         else Some (ip, dropWhile is_digit s))"

definition read_frac :: "jsstring \<Rightarrow> (jsstring \<times> jsstring) option" where
  "read_frac s =
     (if s \<noteq> [] \<and> hd s = 46 then
        (let fp = takeWhile is_digit (tl s)
         in if fp = [] then None else Some (fp, dropWhile is_digit (tl s)))
      else Some ([], s))"

definition read_exp :: "jsstring \<Rightarrow> ((bool \<times> jsstring) \<times> jsstring) option" where
  "read_exp s =
     (if s \<noteq> [] \<and> (hd s = 101 \<or> hd s = 69) then
        (let t = tl s;
             eneg = (t \<noteq> [] \<and> hd t = 45);
             u = (if t \<noteq> [] \<and> (hd t = 43 \<or> hd t = 45) then tl t else t);
             ep = takeWhile is_digit u
         in if ep = [] then None else Some ((eneg, ep), dropWhile is_digit u))
      else Some ((False, []), s))"

definition number_value :: "bool \<Rightarrow> jsstring \<Rightarrow> jsstring \<Rightarrow> bool \<Rightarrow> jsstring \<Rightarrow> rat" where
  "number_value neg ip fp eneg ep =
     (let mant = of_nat (digits_value (ip @ fp)) / 10 ^ length fp;
          scaled = (if eneg then mant / 10 ^ digits_value ep else mant * 10 ^ digits_value ep)
      in if neg then - scaled else scaled)"

definition parse_number :: "jsstring \<Rightarrow> (jsval \<times> jsstring) option" where
  "parse_number cs =
     (let neg = (cs \<noteq> [] \<and> hd cs = 45)
      in case read_int (if neg then tl cs else cs) of
           None \<Rightarrow> None
         | Some (ip, s2) \<Rightarrow>
             (case read_frac s2 of
                None \<Rightarrow> None
              | Some (fp, s3) \<Rightarrow>
                  (case read_exp s3 of
                     None \<Rightarrow> None
                   | Some ((eneg, ep), s4) \<Rightarrow>
                       Some (JNum (to_number (number_value neg ip fp eneg ep)), s4))))"

text \<open>
  \<^verbatim>\<open>JSON.parse\<close> defines the members of an object one after the other, and the list
  holds them in the order of the object's own keys, which is the order in which
  \<^verbatim>\<open>JSON.stringify\<close> writes them. A key that the object already has keeps its place
  and takes the new value. A new key that is an array index (the decimal form, without
  leading zero, of an integer below \<open>2^32 - 1\<close>) goes among the array indices, which
  stand first in ascending order; every other new key goes last.
\<close>

definition index_key :: "jsstring \<Rightarrow> nat option" where
  "index_key k =
     (case array_index k of
        Some i \<Rightarrow> if i < 4294967295 then Some i else None
      | None \<Rightarrow> None)"

definition key_before :: "jsstring \<Rightarrow> jsstring \<Rightarrow> bool" where
  "key_before k k' =
     (case index_key k of
        None \<Rightarrow> False
      | Some i \<Rightarrow> (case index_key k' of None \<Rightarrow> True | Some i' \<Rightarrow> i < i'))"

fun obj_put :: "jsstring \<Rightarrow> jsval \<Rightarrow> (jsstring \<times> jsval) list \<Rightarrow> (jsstring \<times> jsval) list" where
  "obj_put k v [] = [(k, v)]"
| "obj_put k v ((k', v') # kvs) =
     (if k = k' then (k, v) # kvs
      else if map_of kvs k = None \<and> key_before k k' then (k, v) # (k', v') # kvs
      else (k', v') # obj_put k v kvs)"

fun parse_value :: "nat \<Rightarrow> jsstring \<Rightarrow> (jsval \<times> jsstring) option"
  and parse_elems :: "nat \<Rightarrow> jsval list \<Rightarrow> jsstring \<Rightarrow> (jsval \<times> jsstring) option"
  and parse_members :: "nat \<Rightarrow> (jsstring \<times> jsval) list \<Rightarrow> jsstring \<Rightarrow> (jsval \<times> jsstring) option"
  where
  "parse_value 0 cs = None"
| "parse_value (Suc n) cs =
     (case skip_ws cs of
        [] \<Rightarrow> None
      | c # r \<Rightarrow>
          if c = 123 then
            (case skip_ws r of
               [] \<Rightarrow> None
             | d # r' \<Rightarrow> if d = 125 then Some (JObj [], r') else parse_members n [] r)
          else if c = 91 then
            (case skip_ws r of
               [] \<Rightarrow> None
             | d # r' \<Rightarrow> if d = 93 then Some (JArr [], r') else parse_elems n [] r)
          else if c = 34 then
            (case parse_chars [] r of None \<Rightarrow> None | Some (s, r') \<Rightarrow> Some (JStr s, r'))
          else if prefix (js ''true'') (c # r) then Some (JBool True, drop 4 (c # r))
          else if prefix (js ''false'') (c # r) then Some (JBool False, drop 5 (c # r))
          else if prefix (js ''null'') (c # r) then Some (JNull, drop 4 (c # r))
          else parse_number (c # r))"
| "parse_elems 0 acc cs = None"
| "parse_elems (Suc n) acc cs =
     (case parse_value n cs of
        None \<Rightarrow> None
      | Some (v, r) \<Rightarrow>
          (case skip_ws r of
             [] \<Rightarrow> None
           | c # r' \<Rightarrow>
               if c = 44 then parse_elems n (acc @ [v]) r'
               else if c = 93 then Some (JArr (acc @ [v]), r')
               else None))"
| "parse_members 0 acc cs = None"
| "parse_members (Suc n) acc cs =
     (case skip_ws cs of
        [] \<Rightarrow> None
      | q # r \<Rightarrow>
          if q \<noteq> 34 then None
          else
            (case parse_chars [] r of
               None \<Rightarrow> None
             | Some (k, r1) \<Rightarrow>
                 (case skip_ws r1 of
                    [] \<Rightarrow> None
                  | colon # r2 \<Rightarrow>
                      if colon \<noteq> 58 then None
                      else
                        (case parse_value n r2 of
                           None \<Rightarrow> None
                         | Some (v, r3) \<Rightarrow>
                             (case skip_ws r3 of
                                [] \<Rightarrow> None
                              | c # r4 \<Rightarrow>
                                  if c = 44 then parse_members n (obj_put k v acc) r4
                                  else if c = 125 then Some (JObj (obj_put k v acc), r4)
                                  else None)))))"

definition JSON_parse :: "jsstring \<Rightarrow> jsval option" where
  "JSON_parse text =
     (case parse_value (Suc (length text)) text of
        None \<Rightarrow> None
      | Some (v, r) \<Rightarrow> if skip_ws r = [] then Some v else None)"

section \<open>Rate limiting\<close>

record rate_record =
  count :: int
  resetTime :: int

record rate_check =
  allowed :: bool
  remaining :: int

text \<open>\<^verbatim>\<open>rateLimitMap\<close>: the process-wide map from caller key to record.\<close>

type_synonym rate_map = "jsstring \<Rightarrow> rate_record option"

definition RATE_LIMIT_MAX :: int where
  "RATE_LIMIT_MAX = 20"

definition RATE_LIMIT_WINDOW_MS :: int where
  "RATE_LIMIT_WINDOW_MS = 60 * 60 * 1000"

text \<open>
  \<^verbatim>\<open>checkRateLimit(key)\<close>. The clock \<^verbatim>\<open>Date.now()\<close> is the argument \<open>now\<close>; the map the
  function mutates is passed in and returned.
\<close>

definition checkRateLimit :: "int \<Rightarrow> jsstring \<Rightarrow> rate_map \<Rightarrow> rate_check \<times> rate_map" where
  "checkRateLimit now key m =
     (case m key of
        None \<Rightarrow>
          (\<lparr>allowed = True, remaining = RATE_LIMIT_MAX - 1\<rparr>,
           m(key \<mapsto> \<lparr>count = 1, resetTime = now + RATE_LIMIT_WINDOW_MS\<rparr>))
      | Some record \<Rightarrow>
          if now > resetTime record then
            (\<lparr>allowed = True, remaining = RATE_LIMIT_MAX - 1\<rparr>,
             m(key \<mapsto> \<lparr>count = 1, resetTime = now + RATE_LIMIT_WINDOW_MS\<rparr>))
          else if count record \<ge> RATE_LIMIT_MAX then
            (\<lparr>allowed = False, remaining = 0\<rparr>, m)
          else
            (\<lparr>allowed = True, remaining = RATE_LIMIT_MAX - (count record + 1)\<rparr>,
             m(key \<mapsto> record\<lparr>count := count record + 1\<rparr>)))"

section \<open>Input validation\<close>

definition MAX_REQUEST_SIZE :: jsnum where
  "MAX_REQUEST_SIZE = Fin 10000"

definition MAX_STRING_LENGTH :: nat where
  "MAX_STRING_LENGTH = 500"

definition MAX_IDEA_COUNT :: jsnum where
  "MAX_IDEA_COUNT = Fin 5"

definition MAX_DAYS :: jsnum where
  "MAX_DAYS = Fin 365"

definition VALID_DIFFICULTIES :: "jsstring list" where
  "VALID_DIFFICULTIES =
     map js [''beginner'', ''intermediate'', ''advanced'', ''easy'', ''medium'', ''hard'']"

definition VALID_MODES :: "jsstring list" where
  "VALID_MODES =
     map js [''hackathon'', ''startup'', ''academic'', ''beginner'', ''personal'', ''learning'']"

text \<open>
  \<^verbatim>\<open>sanitizeString\<close>: a value that is not a string gives the empty string; a string
  loses every \<^verbatim>\<open><\<close> (60) and \<^verbatim>\<open>>\<close> (62), is trimmed, and is then cut to its first
  500 code units.
\<close>

definition sanitizeString :: "jsval \<Rightarrow> jsstring" where
  "sanitizeString str =
     (case str of
        JStr s \<Rightarrow> take MAX_STRING_LENGTH (trim (filter (\<lambda>c. c \<noteq> 60 \<and> c \<noteq> 62) s))
      | _ \<Rightarrow> [])"

text \<open>
  \<^verbatim>\<open>validateNumber\<close>: a number is taken as it is, any other value goes through
  \<^verbatim>\<open>parseInt(String(val), 10)\<close>, and the exception of \<^verbatim>\<open>String(val)\<close> leaves the
  function.
\<close>

definition validateNumber ::
  "(jsnum \<Rightarrow> jsstring) \<Rightarrow> jsval \<Rightarrow> jsnum \<Rightarrow> jsnum \<Rightarrow> jsnum \<Rightarrow> exn + jsnum" where
  "validateNumber nts val min' max' defaultVal =
     bind_exn (case val of
                 JNum n \<Rightarrow> Inr n
               | _ \<Rightarrow> bind_exn (ToString nts val) (\<lambda>s. Inr (parseInt s)))
       (\<lambda>num. Inr (if isNaN num then defaultVal else Math_min (Math_max num min') max'))"

text \<open>
  \<^verbatim>\<open>toLowerCase\<close>, exact on the code units whose lower case is an ASCII letter (the
  letters A to Z and the Kelvin sign U+212A); every other code unit is left as it is,
  where JavaScript maps it to code units outside ASCII. Membership in the two word
  lists above, which are ASCII, is the same.
\<close>

definition toLowerCase :: "jsstring \<Rightarrow> jsstring" where
  "toLowerCase s =
     map (\<lambda>c. if 65 \<le> c \<and> c \<le> 90 then c + 32 else if c = 8490 then 107 else c) s"

section \<open>Requests, responses and the model gateway\<close>

text \<open>
  What the handler reads of a request: its method, \<^verbatim>\<open>req.headers.get\<close> (by lower-case
  name, \<open>None\<close> for an absent header) and the outcome of \<^verbatim>\<open>await req.json()\<close>
  (\<open>None\<close> when the promise rejects).
\<close>

record request =
  req_method :: jsstring
  req_headers :: "jsstring \<Rightarrow> jsstring option"
  req_json :: "jsval option"

text \<open>
  A response: status, headers, and the value whose \<^verbatim>\<open>JSON.stringify\<close> is the body
  (\<open>None\<close> for the \<^verbatim>\<open>null\<close> body). A response built without a status has status 200.
\<close>

record response =
  status :: nat
  headers :: "(string \<times> string) list"
  body :: "jsval option"

text \<open>
  The gateway's reply to \<^verbatim>\<open>fetch\<close>: its status and the outcomes of
  \<^verbatim>\<open>await response.text()\<close> and \<^verbatim>\<open>await response.json()\<close>.
\<close>

record gw_response =
  gw_status :: nat
  gw_text :: "jsstring option"
  gw_json :: "jsval option"

datatype fetch_outcome = FetchRejects | FetchResolves gw_response

text \<open>The sanitized inputs; the user prompt is built from exactly these values.\<close>

record idea_params =
  domain :: jsstring
  audience :: jsstring
  difficulty :: jsstring
  mode :: jsstring
  skills :: jsstring
  constraints :: jsstring
  time_available_days :: jsnum
  multi_idea_count :: jsnum

definition corsHeaders :: "(string \<times> string) list" where
  "corsHeaders =
     [(''Access-Control-Allow-Origin'', ''*''),
      (''Access-Control-Allow-Headers'', ''authorization, x-client-info, apikey, content-type'')]"

definition json_headers :: "(string \<times> string) list" where
  "json_headers = corsHeaders @ [(''Content-Type'', ''application/json'')]"

definition error_response :: "nat \<Rightarrow> string \<Rightarrow> (string \<times> string) list \<Rightarrow> response" where
  "error_response st msg hs =
     \<lparr>status = st, headers = hs, body = Some (JObj [(js ''error'', JStr (js msg))])\<rparr>"

definition ok_response :: "jsval \<Rightarrow> response" where
  "ok_response parsedData = \<lparr>status = 200, headers = json_headers, body = Some parsedData\<rparr>"

definition getRateLimitKey :: "request \<Rightarrow> jsstring" where
  "getRateLimitKey req =
     (let forwarded = req_headers req (js ''x-forwarded-for'');
          realIp = req_headers req (js ''x-real-ip'');
          first = (case forwarded of
                     None \<Rightarrow> []
                   | Some f \<Rightarrow> trim (takeWhile (\<lambda>c. c \<noteq> 44) f))
      in if first \<noteq> [] then first
         else case realIp of
                None \<Rightarrow> js ''unknown''
              | Some ip \<Rightarrow> if ip \<noteq> [] then ip else js ''unknown'')"

section \<open>Recovering JSON from the model's reply\<close>

text \<open>
  \<^verbatim>\<open>s.replace(/PAT\n?/g, '')\<close> for a literal \<open>pat\<close>: scanning from the left, every
  occurrence of \<open>pat\<close>, with one line feed (10) right after it if there is one, is
  removed, and the scan goes on after what was removed.
\<close>

function replace_fence :: "jsstring \<Rightarrow> jsstring \<Rightarrow> jsstring" where
  "replace_fence pat [] = []"
| "replace_fence pat (c # cs) =
     (if pat \<noteq> [] \<and> prefix pat (c # cs)
      then (let r = drop (length pat) (c # cs)
            in replace_fence pat (if r \<noteq> [] \<and> hd r = 10 then tl r else r))
      else c # replace_fence pat cs)"
  by pat_completeness auto
termination
  by (relation "measure (\<lambda>(pat, cs). length cs)") (auto simp: Let_def)

definition cleanContent :: "jsstring \<Rightarrow> jsstring" where
  "cleanContent generatedContent =
     trim (replace_fence (js ''```'') (replace_fence (js ''```json'') generatedContent))"

text \<open>
  \<^verbatim>\<open>s.match(/\{[\s\S]*\}/)\<close>: from the first opening brace (123) to the last closing
  brace (125) after it; no match when there is no such pair.
\<close>

definition brace_match :: "jsstring \<Rightarrow> jsstring option" where
  "brace_match s =
     (case dropWhile (\<lambda>c. c \<noteq> 123) s of
        [] \<Rightarrow> None
      | b # r \<Rightarrow>
          if 125 \<in> set r
          then Some (b # rev (dropWhile (\<lambda>c. c \<noteq> 125) (rev r)))
          else None)"

text \<open>
  The inner \<^verbatim>\<open>try\<close> block: strip the fences, parse, check the structure. A reply
  that is not a string has no \<^verbatim>\<open>replace\<close> method, and calling it throws.
\<close>

definition direct_parse :: "jsval \<Rightarrow> exn + jsval" where
  "direct_parse generatedContent =
     (case generatedContent of
        JStr s \<Rightarrow>
          (case JSON_parse (cleanContent s) of
             None \<Rightarrow> Inl SyntaxError
           | Some parsedData \<Rightarrow>
               bind_exn (get_prop parsedData (js ''ideas''))
                 (\<lambda>ideas. if \<not> truthy ideas \<or> \<not> Array_isArray ideas
                           then Inl Error else Inr parsedData))
      | _ \<Rightarrow> Inl TypeError)"

text \<open>
  The inner \<^verbatim>\<open>try\<close> with its \<^verbatim>\<open>catch\<close>, and the success response after them. An
  exception thrown inside the \<^verbatim>\<open>catch\<close> block (\<^verbatim>\<open>match\<close> on a value that is not a
  string) leaves the block.
\<close>

definition parse_response :: "jsval \<Rightarrow> exn + response" where
  "parse_response generatedContent =
     (case direct_parse generatedContent of
        Inr parsedData \<Rightarrow> Inr (ok_response parsedData)
      | Inl parseError \<Rightarrow>
          (case generatedContent of
             JStr s \<Rightarrow>
               (case brace_match s of
                  Some jsonMatch \<Rightarrow>
                    (case JSON_parse jsonMatch of
                       None \<Rightarrow>
                         Inr (error_response 500
                                ''Failed to process response. Please try again.'' json_headers)
                     | Some parsedData \<Rightarrow> Inr (ok_response parsedData))
                | None \<Rightarrow>
                    Inr (error_response 500
                           ''Failed to generate ideas. Please try again.'' json_headers))
           | _ \<Rightarrow> Inl TypeError))"

section \<open>The request handler\<close>

text \<open>
  Reading and sanitizing the eight inputs, in the order of the code. Reading a property
  of a null body throws, and so may \<^verbatim>\<open>validateNumber\<close>; both exceptions reach the outer
  \<^verbatim>\<open>catch\<close>.
\<close>

definition read_inputs :: "(jsnum \<Rightarrow> jsstring) \<Rightarrow> jsval \<Rightarrow> exn + idea_params" where
  "read_inputs nts b =
     bind_exn (get_prop b (js ''domain'')) (\<lambda>v1.
     bind_exn (get_prop b (js ''audience'')) (\<lambda>v2.
     bind_exn (get_prop b (js ''difficulty'')) (\<lambda>v3.
     bind_exn (get_prop b (js ''mode'')) (\<lambda>v4.
     bind_exn (get_prop b (js ''skills'')) (\<lambda>v5.
     bind_exn (get_prop b (js ''constraints'')) (\<lambda>v6.
     bind_exn (get_prop b (js ''time_available_days'')) (\<lambda>v7.
     bind_exn (validateNumber nts v7 (Fin 1) MAX_DAYS (Fin 7)) (\<lambda>days.
     bind_exn (get_prop b (js ''multi_idea_count'')) (\<lambda>v8.
     bind_exn (validateNumber nts v8 (Fin 1) MAX_IDEA_COUNT (Fin 3)) (\<lambda>count'.
       Inr \<lparr>domain = sanitizeString v1, audience = sanitizeString v2,
            difficulty = sanitizeString v3, mode = sanitizeString v4,
            skills = sanitizeString v5, constraints = sanitizeString v6,
            time_available_days = days, multi_idea_count = count'\<rparr>))))))))))"

definition response_ok :: "gw_response \<Rightarrow> bool" where
  "response_ok r = (200 \<le> gw_status r \<and> gw_status r \<le> 299)"

text \<open>The branch \<^verbatim>\<open>if (!response.ok)\<close>, once the error text was read.\<close>

definition gateway_error :: "gw_response \<Rightarrow> response" where
  "gateway_error r =
     (if gw_status r = 429 then
        error_response 429 ''Rate limit exceeded. Please try again in a moment.'' json_headers
      else if gw_status r = 402 then
        error_response 402 ''AI credits exhausted. Please contact support.'' json_headers
      else
        error_response 500 ''Service temporarily unavailable. Please try again.'' json_headers)"

text \<open>\<^verbatim>\<open>data.choices[0].message.content\<close>\<close>

definition reply_content :: "jsval \<Rightarrow> exn + jsval" where
  "reply_content data =
     bind_exn (get_prop data (js ''choices'')) (\<lambda>choices.
     bind_exn (get_prop choices (js ''0'')) (\<lambda>choice.
     bind_exn (get_prop choice (js ''message'')) (\<lambda>message.
       get_prop message (js ''content''))))"

text \<open>
  From the \<^verbatim>\<open>fetch\<close> on: a rejected promise is an exception; a reply that is not ok
  is mapped to an error response; otherwise the reply's content is read (its length is
  logged, which throws on null and undefined) and recovered.
\<close>

definition after_fetch :: "fetch_outcome \<Rightarrow> exn + response" where
  "after_fetch outcome =
     (case outcome of
        FetchRejects \<Rightarrow> Inl Rejected
      | FetchResolves r \<Rightarrow>
          if \<not> response_ok r then
            (case gw_text r of None \<Rightarrow> Inl Rejected | Some errorText \<Rightarrow> Inr (gateway_error r))
          else
            (case gw_json r of
               None \<Rightarrow> Inl Rejected
             | Some data \<Rightarrow>
                 bind_exn (reply_content data) (\<lambda>generatedContent.
                 bind_exn (get_prop generatedContent (js ''length'')) (\<lambda>len.
                   parse_response generatedContent))))"

text \<open>
  The outer \<^verbatim>\<open>try\<close> block. The gateway is a function of the sanitized inputs, from
  which the prompt is built.
\<close>

definition try_block ::
  "(jsnum \<Rightarrow> jsstring) \<Rightarrow> (idea_params \<Rightarrow> fetch_outcome) \<Rightarrow> request \<Rightarrow> exn + response" where
  "try_block nts gateway req =
     (let contentLength = req_headers req (js ''content-length'') in
      if (case contentLength of
            None \<Rightarrow> False
          | Some cl \<Rightarrow> cl \<noteq> [] \<and> js_gt (parseInt cl) MAX_REQUEST_SIZE)
      then Inr (error_response 413 ''Request too large'' json_headers)
      else
        (case req_json req of
           None \<Rightarrow> Inl Rejected
         | Some b \<Rightarrow>
             bind_exn (read_inputs nts b) (\<lambda>p.
               if domain p = [] \<or> audience p = [] \<or> difficulty p = [] \<or> mode p = [] then
                 Inr (error_response 400
                        ''Missing required fields: domain, audience, difficulty, mode''
                        json_headers)
               else if toLowerCase (difficulty p) \<notin> set VALID_DIFFICULTIES then
                 Inr (error_response 400 ''Invalid difficulty level'' json_headers)
               else if toLowerCase (mode p) \<notin> set VALID_MODES then
                 Inr (error_response 400 ''Invalid mode'' json_headers)
               else after_fetch (gateway p))))"

text \<open>
  The handler passed to \<^verbatim>\<open>serve\<close>: the response, and the rate-limit map after the
  request.
\<close>

definition handler ::
  "(jsnum \<Rightarrow> jsstring) \<Rightarrow> (idea_params \<Rightarrow> fetch_outcome) \<Rightarrow> int \<Rightarrow> request \<Rightarrow> rate_map
     \<Rightarrow> response \<times> rate_map" where
  "handler nts gateway now req m =
     (if req_method req = js ''OPTIONS'' then
        (\<lparr>status = 200, headers = corsHeaders, body = None\<rparr>, m)
      else
        (let rateLimitKey = getRateLimitKey req;
             rateCheck = checkRateLimit now rateLimitKey m
         in if \<not> allowed (fst rateCheck) then
              (error_response 429 ''Rate limit exceeded. Please try again later.''
                 (json_headers @ [(''Retry-After'', ''3600'')]),
               snd rateCheck)
            else
              (case try_block nts gateway req of
                 Inr r \<Rightarrow> (r, snd rateCheck)
               | Inl error \<Rightarrow>
                   (error_response 500 ''An unexpected error occurred. Please try again.''
                      json_headers,
                    snd rateCheck))))"

section \<open>Request sequences\<close>




section \<open>Notions of the statements\<close>



text \<open>The request passes every check made before the fetch, with sanitized inputs \<open>p\<close>.\<close>

definition reaches_gateway ::
  "(jsnum \<Rightarrow> jsstring) \<Rightarrow> int \<Rightarrow> request \<Rightarrow> rate_map \<Rightarrow> idea_params \<Rightarrow> bool" where
  "reaches_gateway nts now req m p =
     (req_method req \<noteq> js ''OPTIONS''
      \<and> allowed (fst (checkRateLimit now (getRateLimitKey req) m))
      \<and> (case req_headers req (js ''content-length'') of
            None \<Rightarrow> True
          | Some cl \<Rightarrow> cl = [] \<or> \<not> js_gt (parseInt cl) MAX_REQUEST_SIZE)
      \<and> (case req_json req of None \<Rightarrow> False | Some b \<Rightarrow> read_inputs nts b = Inr p)
      \<and> domain p \<noteq> [] \<and> audience p \<noteq> [] \<and> difficulty p \<noteq> [] \<and> mode p \<noteq> []
      \<and> toLowerCase (difficulty p) \<in> set VALID_DIFFICULTIES
      \<and> toLowerCase (mode p) \<in> set VALID_MODES)"

text \<open>The response of the outer \<^verbatim>\<open>catch\<close> block.\<close>

definition unexpected_error :: response where
  "unexpected_error =
     error_response 500 ''An unexpected error occurred. Please try again.'' json_headers"

text \<open>
  A text at which a number of the JSON grammar ends: the empty text, or one that starts
  with none of the characters that continue a number (a digit, the point, the letter e).
\<close>

definition number_end :: "jsstring \<Rightarrow> bool" where
  "number_end t = (t = [] \<or> (\<not> is_digit (hd t) \<and> hd t \<noteq> 46 \<and> hd t \<noteq> 101 \<and> hd t \<noteq> 69))"

text \<open>
  A text \<open>j\<close> in a markdown code fence: the opening marker with its language tag, a
  line feed, the text, a line feed and the closing marker; \<open>pre\<close> and \<open>post\<close> are what
  stands before and after the fence.
\<close>

definition fenced :: "jsstring \<Rightarrow> jsstring \<Rightarrow> jsstring \<Rightarrow> jsstring \<Rightarrow> jsstring" where
  "fenced pre tag j post = pre @ js ''```'' @ tag @ [10] @ j @ [10] @ js ''```'' @ post"

section \<open>Sample inputs\<close>

text \<open>
  A caller and its requests: a POST without body, a valid POST, a POST that declares
  10001 bytes, and a preflight; the caller's record once its 20 requests are used;
  gateways that answer with a given status, with a given status and a body that cannot
  be read, or with a given reply text; inputs of the sanitizer and replies of the model.
\<close>

definition caller :: jsstring where
  "caller = js ''203.0.113.7''"

definition post_from_caller :: request where
  "post_from_caller =
     \<lparr>req_method = js ''POST'',
      req_headers = (\<lambda>k. if k = js ''x-forwarded-for'' then Some (js ''203.0.113.7, 10.0.0.1'') else None),
      req_json = None\<rparr>"

definition good_body :: jsval where
  "good_body =
     JObj [(js ''domain'', JStr (js ''fitness'')), (js ''audience'', JStr (js ''students'')),
           (js ''difficulty'', JStr (js ''Beginner'')), (js ''mode'', JStr (js ''hackathon''))]"

definition good_params :: idea_params where
  "good_params =
     \<lparr>domain = js ''fitness'', audience = js ''students'', difficulty = js ''Beginner'',
      mode = js ''hackathon'', skills = [], constraints = [],
      time_available_days = Fin 7, multi_idea_count = Fin 3\<rparr>"

definition good_post :: request where
  "good_post = post_from_caller\<lparr>req_json := Some good_body\<rparr>"

definition big_post :: request where
  "big_post =
     \<lparr>req_method = js ''POST'',
      req_headers = (\<lambda>k. if k = js ''x-forwarded-for'' then Some (js ''203.0.113.7, 10.0.0.1'')
                         else if k = js ''content-length'' then Some (js ''10001'')
                         else None),
      req_json = Some good_body\<rparr>"

definition gateway_status :: "nat \<Rightarrow> idea_params \<Rightarrow> fetch_outcome" where
  "gateway_status st p = FetchResolves \<lparr>gw_status = st, gw_text = Some [], gw_json = None\<rparr>"


definition gateway_reply :: "jsstring \<Rightarrow> idea_params \<Rightarrow> fetch_outcome" where
  "gateway_reply generatedContent p =
     FetchResolves
       \<lparr>gw_status = 200, gw_text = None,
        gw_json = Some (JObj [(js ''choices'',
                    JArr [JObj [(js ''message'',
                      JObj [(js ''content'', JStr generatedContent)])]])])\<rparr>"

definition preflight :: request where
  "preflight = post_from_caller\<lparr>req_method := js ''OPTIONS''\<rparr>"

definition error_reply :: jsstring where
  \<open>error_reply = js ''{"error": "could not produce json"}''\<close>

definition error_object :: jsval where
  "error_object = JObj [(js ''error'', JStr (js ''could not produce json''))]"

definition full_map :: rate_map where
  "full_map = [caller \<mapsto> \<lparr>count = 20, resetTime = 3601000\<rparr>]"

definition long_input :: jsval where
  "long_input = JStr (replicate 499 97 @ js '' b'')"

definition ideas_reply :: jsstring where
  \<open>ideas_reply = js ''{"ideas": []}''\<close>

definition ideas_object :: jsval where
  "ideas_object = JObj [(js ''ideas'', JArr [])]"

definition tick_reply :: jsstring where
  \<open>tick_reply = js ''{"ideas": ["```"]}''\<close>

section \<open>Properties\<close>

subsection \<open>The fuel of the JSON reader\<close>

lemma skip_ws_shorter: "skip_ws cs = c # r \<Longrightarrow> length r < length cs"
proof -
  assume a: "skip_ws cs = c # r"
  have "length (dropWhile is_json_ws cs) \<le> length cs" by (rule length_dropWhile_le)
  then show ?thesis using a by (simp add: skip_ws_def)
qed

lemma parse_value_cases:
  assumes "parse_value (Suc n) cs = Some res"
  obtains
    (empty_object) rest d r' where "skip_ws cs = 123 # rest" "skip_ws rest = d # r'" "d = 125"
      "res = (JObj [], r')"
  | (object) rest d r' where "skip_ws cs = 123 # rest" "skip_ws rest = d # r'" "d \<noteq> 125"
      "parse_members n [] rest = Some res"
  | (empty_array) rest d r' where "skip_ws cs = 91 # rest" "skip_ws rest = d # r'" "d = 93"
      "res = (JArr [], r')"
  | (array) rest d r' where "skip_ws cs = 91 # rest" "skip_ws rest = d # r'" "d \<noteq> 93"
      "parse_elems n [] rest = Some res"
  | (scalar) c rest where "skip_ws cs = c # rest" "c \<noteq> 123" "c \<noteq> 91"
      "\<And>m. parse_value (Suc m) cs = Some res"
proof (cases "skip_ws cs")
  case Nil
  then show ?thesis using assms by simp
next
  case (Cons c rest)
  show ?thesis
  proof (cases "c = 123")
    case True
    show ?thesis
    proof (cases "skip_ws rest")
      case Nil
      then show ?thesis using assms Cons True by simp
    next
      case inner: (Cons d r')
      show ?thesis
      proof (cases "d = 125")
        case True
        then show ?thesis using assms Cons \<open>c = 123\<close> inner empty_object by simp
      next
        case False
        then show ?thesis using assms Cons \<open>c = 123\<close> inner object by simp
      qed
    qed
  next
    case nobj: False
    show ?thesis
    proof (cases "c = 91")
      case True
      show ?thesis
      proof (cases "skip_ws rest")
        case Nil
        then show ?thesis using assms Cons True by simp
      next
        case inner: (Cons d r')
        show ?thesis
        proof (cases "d = 93")
          case True
          then show ?thesis using assms Cons \<open>c = 91\<close> inner empty_array by simp
        next
          case False
          then show ?thesis using assms Cons \<open>c = 91\<close> inner array by simp
        qed
      qed
    next
      case False
      have "parse_value (Suc m) cs = parse_value (Suc n) cs" for m
        using Cons nobj False by simp
      then show ?thesis using assms Cons nobj False scalar by simp
    qed
  qed
qed

lemma parse_elems_cases:
  assumes "parse_elems (Suc n) acc cs = Some res"
  obtains
    (more) v r1 c r' where "parse_value n cs = Some (v, r1)" "skip_ws r1 = c # r'" "c = 44"
      "parse_elems n (acc @ [v]) r' = Some res"
  | (last) v r1 c r' where "parse_value n cs = Some (v, r1)" "skip_ws r1 = c # r'" "c = 93"
      "res = (JArr (acc @ [v]), r')"
proof (cases "parse_value n cs")
  case None
  then show ?thesis using assms by simp
next
  case (Some p)
  obtain v r1 where p: "p = (v, r1)" by (cases p)
  show ?thesis
  proof (cases "skip_ws r1")
    case Nil
    then show ?thesis using assms Some p by simp
  next
    case (Cons c r')
    show ?thesis
    proof (cases "c = 44")
      case True
      then show ?thesis using assms Some p Cons more by simp
    next
      case False
      then show ?thesis using assms Some p Cons last by (simp split: if_splits)
    qed
  qed
qed

lemma parse_members_cases:
  assumes "parse_members (Suc n) acc cs = Some res"
  obtains
    (more) r k r1 r2 v r3 c r4 where "skip_ws cs = 34 # r" "parse_chars [] r = Some (k, r1)"
      "skip_ws r1 = 58 # r2" "parse_value n r2 = Some (v, r3)" "skip_ws r3 = c # r4" "c = 44"
      "parse_members n (obj_put k v acc) r4 = Some res"
  | (last) r k r1 r2 v r3 c r4 where "skip_ws cs = 34 # r" "parse_chars [] r = Some (k, r1)"
      "skip_ws r1 = 58 # r2" "parse_value n r2 = Some (v, r3)" "skip_ws r3 = c # r4" "c = 125"
      "res = (JObj (obj_put k v acc), r4)"
proof (cases "skip_ws cs")
  case Nil
  then show ?thesis using assms by simp
next
  case a: (Cons q r)
  then have q: "q = 34" using assms by (simp split: if_splits)
  show ?thesis
  proof (cases "parse_chars [] r")
    case None
    then show ?thesis using assms a q by simp
  next
    case (Some p)
    obtain k r1 where p: "p = (k, r1)" by (cases p)
    show ?thesis
    proof (cases "skip_ws r1")
      case Nil
      then show ?thesis using assms a q Some p by simp
    next
      case b: (Cons colon r2)
      then have colon: "colon = 58" using assms a q Some p by (simp split: if_splits)
      show ?thesis
      proof (cases "parse_value n r2")
        case None
        then show ?thesis using assms a q Some p b colon by simp
      next
        case pv: (Some pr)
        obtain v r3 where pr: "pr = (v, r3)" by (cases pr)
        show ?thesis
        proof (cases "skip_ws r3")
          case Nil
          then show ?thesis using assms a q Some p b colon pv pr by simp
        next
          case c: (Cons c r4)
          show ?thesis
          proof (cases "c = 44")
            case True
            then show ?thesis using assms a q Some p b colon pv pr c more by simp
          next
            case False
            then show ?thesis using assms a q Some p b colon pv pr c last
              by (simp split: if_splits)
          qed
        qed
      qed
    qed
  qed
qed


lemma parse_value_object:
  "skip_ws cs = 123 # rest \<Longrightarrow> skip_ws rest = d # r' \<Longrightarrow> d \<noteq> 125 \<Longrightarrow>
   parse_value (Suc n) cs = parse_members n [] rest"
  by simp

lemma parse_value_array:
  "skip_ws cs = 91 # rest \<Longrightarrow> skip_ws rest = d # r' \<Longrightarrow> d \<noteq> 93 \<Longrightarrow>
   parse_value (Suc n) cs = parse_elems n [] rest"
  by simp

lemma parse_elems_more:
  "parse_value n cs = Some (v, r1) \<Longrightarrow> skip_ws r1 = 44 # r' \<Longrightarrow>
   parse_elems (Suc n) acc cs = parse_elems n (acc @ [v]) r'"
  by simp

lemma parse_elems_last:
  "parse_value n cs = Some (v, r1) \<Longrightarrow> skip_ws r1 = 93 # r' \<Longrightarrow>
   parse_elems (Suc n) acc cs = Some (JArr (acc @ [v]), r')"
  by simp

lemma parse_members_more:
  "skip_ws cs = 34 # r \<Longrightarrow> parse_chars [] r = Some (k, r1) \<Longrightarrow> skip_ws r1 = 58 # r2 \<Longrightarrow>
   parse_value n r2 = Some (v, r3) \<Longrightarrow> skip_ws r3 = 44 # r4 \<Longrightarrow>
   parse_members (Suc n) acc cs = parse_members n (obj_put k v acc) r4"
  by simp

lemma parse_members_last:
  "skip_ws cs = 34 # r \<Longrightarrow> parse_chars [] r = Some (k, r1) \<Longrightarrow> skip_ws r1 = 58 # r2 \<Longrightarrow>
   parse_value n r2 = Some (v, r3) \<Longrightarrow> skip_ws r3 = 125 # r4 \<Longrightarrow>
   parse_members (Suc n) acc cs = Some (JObj (obj_put k v acc), r4)"
  by simp

lemma fuel_step:
  "(\<forall>cs res. parse_value n cs = Some res \<longrightarrow> parse_value (Suc n) cs = Some res)
   \<and> (\<forall>acc cs res. parse_elems n acc cs = Some res \<longrightarrow> parse_elems (Suc n) acc cs = Some res)
   \<and> (\<forall>acc cs res. parse_members n acc cs = Some res \<longrightarrow>
         parse_members (Suc n) acc cs = Some res)"
proof (induction n)
  case 0
  show ?case by simp
next
  case (Suc n)
  note ih_v = Suc[THEN conjunct1, rule_format]
  note ih_e = Suc[THEN conjunct2, THEN conjunct1, rule_format]
  note ih_m = Suc[THEN conjunct2, THEN conjunct2, rule_format]
  have v: "parse_value (Suc (Suc n)) cs = Some res" if a: "parse_value (Suc n) cs = Some res"
    for cs res
    using a
  proof (cases rule: parse_value_cases)
    case (empty_object rest d r')
    then show ?thesis by simp
  next
    case (object rest d r')
    have "parse_value (Suc (Suc n)) cs = parse_members (Suc n) [] rest"
      using object(1,2,3) by (rule parse_value_object)
    also have "\<dots> = Some res" using object(4) by (rule ih_m)
    finally show ?thesis .
  next
    case (empty_array rest d r')
    then show ?thesis by simp
  next
    case (array rest d r')
    have "parse_value (Suc (Suc n)) cs = parse_elems (Suc n) [] rest"
      using array(1,2,3) by (rule parse_value_array)
    also have "\<dots> = Some res" using array(4) by (rule ih_e)
    finally show ?thesis .
  next
    case (scalar c rest)
    then show ?thesis by blast
  qed
  have e: "parse_elems (Suc (Suc n)) acc cs = Some res"
    if a: "parse_elems (Suc n) acc cs = Some res" for acc cs res
    using a
  proof (cases rule: parse_elems_cases)
    case (more v r1 c r')
    have pv: "parse_value (Suc n) cs = Some (v, r1)" using more(1) by (rule ih_v)
    have sk: "skip_ws r1 = 44 # r'" using more by simp
    have "parse_elems (Suc (Suc n)) acc cs = parse_elems (Suc n) (acc @ [v]) r'"
      using pv sk by (rule parse_elems_more)
    also have "\<dots> = Some res" using more(4) by (rule ih_e)
    finally show ?thesis .
  next
    case (last v r1 c r')
    have pv: "parse_value (Suc n) cs = Some (v, r1)" using last(1) by (rule ih_v)
    have sk: "skip_ws r1 = 93 # r'" using last by simp
    have "parse_elems (Suc (Suc n)) acc cs = Some (JArr (acc @ [v]), r')"
      using pv sk by (rule parse_elems_last)
    then show ?thesis using last(4) by simp
  qed
  have m: "parse_members (Suc (Suc n)) acc cs = Some res"
    if a: "parse_members (Suc n) acc cs = Some res" for acc cs res
    using a
  proof (cases rule: parse_members_cases)
    case (more r k r1 r2 v r3 c r4)
    have pv: "parse_value (Suc n) r2 = Some (v, r3)" using more(4) by (rule ih_v)
    have sk: "skip_ws r3 = 44 # r4" using more by simp
    have "parse_members (Suc (Suc n)) acc cs = parse_members (Suc n) (obj_put k v acc) r4"
      using more(1,2,3) pv sk by (rule parse_members_more)
    also have "\<dots> = Some res" using more(7) by (rule ih_m)
    finally show ?thesis .
  next
    case (last r k r1 r2 v r3 c r4)
    have pv: "parse_value (Suc n) r2 = Some (v, r3)" using last(4) by (rule ih_v)
    have sk: "skip_ws r3 = 125 # r4" using last by simp
    have "parse_members (Suc (Suc n)) acc cs = Some (JObj (obj_put k v acc), r4)"
      using last(1,2,3) pv sk by (rule parse_members_last)
    then show ?thesis using last(7) by simp
  qed
  show ?case using v e m by blast
qed

lemma fuel_mono:
  "n \<le> m \<Longrightarrow>
   (parse_value n cs = Some res \<longrightarrow> parse_value m cs = Some res)
   \<and> (parse_elems n acc cs = Some res \<longrightarrow> parse_elems m acc cs = Some res)
   \<and> (parse_members n ms cs = Some res \<longrightarrow> parse_members m ms cs = Some res)"
proof (induction m)
  case 0
  then show ?case by simp
next
  case (Suc m)
  show ?case
  proof (cases "n = Suc m")
    case True
    then show ?thesis by simp
  next
    case False
    then have "n \<le> m" using Suc.prems by simp
    then show ?thesis using Suc.IH fuel_step[of m] by blast
  qed
qed


lemma parse_chars_shorter: "parse_chars acc cs = Some (s, r) \<Longrightarrow> length r < length cs"
proof (induction acc cs rule: parse_chars.induct)
  case (1 acc)
  then show ?case by simp
next
  case (2 acc c cs)
  show ?case
  proof (cases "c = 34")
    case True
    then show ?thesis using 2(4) by simp
  next
    case quote: False
    show ?thesis
    proof (cases "c = 92")
      case False
      then have "parse_chars (c # acc) cs = Some (s, r)"
        using 2(4) quote by (simp split: if_splits)
      moreover have "\<not> c < 32" using 2(4) quote False by (simp split: if_splits)
      ultimately have "length r < length cs" using 2(3) quote False by simp
      then show ?thesis by simp
    next
      case True
      show ?thesis
      proof (cases cs)
        case Nil
        then show ?thesis using 2(4) quote True by simp
      next
        case (Cons e rest)
        show ?thesis
        proof (cases "e = 117")
          case u: True
          then obtain x where x: "hex4 rest = Some x"
            and p: "parse_chars (x # acc) (drop 4 rest) = Some (s, r)"
            using 2(4) quote True Cons by (auto split: option.splits)
          have "length r < length (drop 4 rest)"
            using 2(1)[OF quote True Cons u x p] .
          then show ?thesis using Cons by simp
        next
          case False
          then obtain x where x: "escape_char e = Some x"
            and p: "parse_chars (x # acc) rest = Some (s, r)"
            using 2(4) quote True Cons by (auto split: option.splits)
          have "length r < length rest"
            using 2(2)[OF quote True Cons False x p] .
          then show ?thesis using Cons by simp
        qed
      qed
    qed
  qed
qed

lemma read_int_shorter: "read_int s = Some (ip, r) \<Longrightarrow> length r < length s"
proof -
  assume a: "read_int s = Some (ip, r)"
  then have ip: "takeWhile is_digit s \<noteq> []" and r: "r = dropWhile is_digit s"
    by (auto simp: read_int_def Let_def split: if_splits)
  have "length (takeWhile is_digit s) + length (dropWhile is_digit s) = length s"
    by (metis length_append takeWhile_dropWhile_id)
  then show ?thesis using ip r by (cases "takeWhile is_digit s") auto
qed

lemma read_frac_shorter: "read_frac s = Some (fp, r) \<Longrightarrow> length r \<le> length s"
proof -
  assume a: "read_frac s = Some (fp, r)"
  have "length (dropWhile is_digit (tl s)) \<le> length (tl s)" by (rule length_dropWhile_le)
  then show ?thesis using a by (auto simp: read_frac_def Let_def split: if_splits)
qed

lemma read_exp_shorter: "read_exp s = Some (e, r) \<Longrightarrow> length r \<le> length s"
proof -
  assume a: "read_exp s = Some (e, r)"
  have "length (dropWhile is_digit (tl (tl s))) \<le> length (tl (tl s))"
    "length (dropWhile is_digit (tl s)) \<le> length (tl s)"
    by (rule length_dropWhile_le)+
  then show ?thesis using a by (auto simp: read_exp_def Let_def split: if_splits)
qed

lemma parse_number_shorter: "parse_number cs = Some (v, r) \<Longrightarrow> length r < length cs"
proof -
  assume a: "parse_number cs = Some (v, r)"
  let ?s1 = "if cs \<noteq> [] \<and> hd cs = 45 then tl cs else cs"
  obtain ip s2 where i: "read_int ?s1 = Some (ip, s2)"
    using a by (auto simp: parse_number_def Let_def split: option.splits)
  obtain fp s3 where f: "read_frac s2 = Some (fp, s3)"
    using a i by (auto simp: parse_number_def Let_def split: option.splits)
  obtain e where e: "read_exp s3 = Some (e, r)"
    using a i f by (auto simp: parse_number_def Let_def split: option.splits)
  have "length ?s1 \<le> length cs" by simp
  then show ?thesis
    using read_int_shorter[OF i] read_frac_shorter[OF f] read_exp_shorter[OF e] by simp
qed

lemma scalar_shorter:
  assumes "skip_ws cs = c # rest" "c \<noteq> 123" "c \<noteq> 91" "parse_value (Suc m) cs = Some (v, r)"
  shows "length r < length cs"
proof -
  have le: "length (c # rest) \<le> length cs"
    using skip_ws_shorter[OF assms(1)] by simp
  have "length r < length (c # rest)"
  proof (cases "c = 34")
    case True
    then obtain s where "parse_chars [] rest = Some (s, r)"
      using assms by (auto split: option.splits)
    then show ?thesis using parse_chars_shorter by fastforce
  next
    case False
    consider (t) "prefix (js ''true'') (c # rest)" "r = drop 4 (c # rest)"
      | (f) "prefix (js ''false'') (c # rest)" "r = drop 5 (c # rest)"
      | (n) "prefix (js ''null'') (c # rest)" "r = drop 4 (c # rest)"
      | (num) "parse_number (c # rest) = Some (v, r)"
      using assms False by (auto split: if_splits)
    then show ?thesis
    proof cases
      case t
      then show ?thesis by simp
    next
      case f
      then show ?thesis by simp
    next
      case n
      then show ?thesis by simp
    next
      case num
      then show ?thesis by (rule parse_number_shorter)
    qed
  qed
  then show ?thesis using le by simp
qed


lemma readers_shorter:
  "(\<forall>cs v r. parse_value n cs = Some (v, r) \<longrightarrow> length r < length cs)
   \<and> (\<forall>acc cs v r. parse_elems n acc cs = Some (v, r) \<longrightarrow> length r < length cs)
   \<and> (\<forall>acc cs v r. parse_members n acc cs = Some (v, r) \<longrightarrow> length r < length cs)"
proof (induction n)
  case 0
  show ?case by simp
next
  case (Suc n)
  note ih_v = Suc[THEN conjunct1, rule_format]
  note ih_e = Suc[THEN conjunct2, THEN conjunct1, rule_format]
  note ih_m = Suc[THEN conjunct2, THEN conjunct2, rule_format]
  have v: "length r < length cs" if a: "parse_value (Suc n) cs = Some (v, r)" for cs v r
    using a
  proof (cases rule: parse_value_cases)
    case (empty_object rest d r')
    then show ?thesis using skip_ws_shorter[of cs 123 rest] skip_ws_shorter[of rest d r'] by simp
  next
    case (object rest d r')
    then show ?thesis using skip_ws_shorter[of cs 123 rest] ih_m[of "[]" rest v r] by simp
  next
    case (empty_array rest d r')
    then show ?thesis using skip_ws_shorter[of cs 91 rest] skip_ws_shorter[of rest d r'] by simp
  next
    case (array rest d r')
    then show ?thesis using skip_ws_shorter[of cs 91 rest] ih_e[of "[]" rest v r] by simp
  next
    case (scalar c rest)
    then show ?thesis using scalar_shorter[of cs c rest 0 v r] by simp
  qed
  have e: "length r < length cs" if a: "parse_elems (Suc n) acc cs = Some (v, r)"
    for acc cs v r
    using a
  proof (cases rule: parse_elems_cases)
    case (more v1 r1 c r')
    then show ?thesis
      using ih_v[of cs v1 r1] skip_ws_shorter[of r1 c r'] ih_e[of "acc @ [v1]" r' v r] by simp
  next
    case (last v1 r1 c r')
    then show ?thesis using ih_v[of cs v1 r1] skip_ws_shorter[of r1 c r'] by simp
  qed
  have m: "length r < length cs" if a: "parse_members (Suc n) acc cs = Some (v, r)"
    for acc cs v r
    using a
  proof (cases rule: parse_members_cases)
    case (more r0 k r1 r2 v1 r3 c r4)
    then show ?thesis
      using skip_ws_shorter[of cs 34 r0] parse_chars_shorter[of "[]" r0 k r1]
        skip_ws_shorter[of r1 58 r2] ih_v[of r2 v1 r3] skip_ws_shorter[of r3 c r4]
        ih_m[of "obj_put k v1 acc" r4 v r]
      by simp
  next
    case (last r0 k r1 r2 v1 r3 c r4)
    then show ?thesis
      using skip_ws_shorter[of cs 34 r0] parse_chars_shorter[of "[]" r0 k r1]
        skip_ws_shorter[of r1 58 r2] ih_v[of r2 v1 r3] skip_ws_shorter[of r3 c r4]
      by simp
  qed
  show ?case using v e m by blast
qed


lemma fuel_enough:
  "(\<forall>cs v r. parse_value n cs = Some (v, r) \<longrightarrow>
      parse_value (length cs - length r) cs = Some (v, r))
   \<and> (\<forall>acc cs v r. parse_elems n acc cs = Some (v, r) \<longrightarrow>
      parse_elems (length cs - length r) acc cs = Some (v, r))
   \<and> (\<forall>acc cs v r. parse_members n acc cs = Some (v, r) \<longrightarrow>
      parse_members (length cs - length r) acc cs = Some (v, r))"
proof (induction n)
  case 0
  show ?case by simp
next
  case (Suc n)
  note ih_v = Suc[THEN conjunct1, rule_format]
  note ih_e = Suc[THEN conjunct2, THEN conjunct1, rule_format]
  note ih_m = Suc[THEN conjunct2, THEN conjunct2, rule_format]
  note sh_v = readers_shorter[THEN conjunct1, rule_format]
  note sh_e = readers_shorter[THEN conjunct2, THEN conjunct1, rule_format]
  note sh_m = readers_shorter[THEN conjunct2, THEN conjunct2, rule_format]
  note mono_v = fuel_mono[THEN conjunct1, rule_format]
  note mono_e = fuel_mono[THEN conjunct2, THEN conjunct1, rule_format]
  note mono_m = fuel_mono[THEN conjunct2, THEN conjunct2, rule_format]
  have v: "parse_value (length cs - length r) cs = Some (v, r)"
    if a: "parse_value (Suc n) cs = Some (v, r)" for cs v r
  proof -
    have "length r < length cs" using a by (rule sh_v)
    then obtain k where k: "length cs - length r = Suc k"
      by (metis Suc_diff_Suc)
    have kl: "length cs = Suc (k + length r)" using k by simp
    from a show ?thesis
    proof (cases rule: parse_value_cases)
      case (empty_object rest d r')
      then show ?thesis unfolding k by simp
    next
      case (object rest d r')
      have "length rest - length r \<le> k"
        using skip_ws_shorter[OF object(1)] kl by simp
      then have "parse_members k [] rest = Some (v, r)"
        using ih_m[OF object(4)] mono_m by blast
      then show ?thesis unfolding k using parse_value_object[OF object(1,2,3)] by simp
    next
      case (empty_array rest d r')
      then show ?thesis unfolding k by simp
    next
      case (array rest d r')
      have "length rest - length r \<le> k"
        using skip_ws_shorter[OF array(1)] kl by simp
      then have "parse_elems k [] rest = Some (v, r)"
        using ih_e[OF array(4)] mono_e by blast
      then show ?thesis unfolding k using parse_value_array[OF array(1,2,3)] by simp
    next
      case (scalar c rest)
      then show ?thesis unfolding k by blast
    qed
  qed
  have e: "parse_elems (length cs - length r) acc cs = Some (v, r)"
    if a: "parse_elems (Suc n) acc cs = Some (v, r)" for acc cs v r
  proof -
    have "length r < length cs" using a by (rule sh_e)
    then obtain k where k: "length cs - length r = Suc k"
      by (metis Suc_diff_Suc)
    have kl: "length cs = Suc (k + length r)" using k by simp
    from a show ?thesis
    proof (cases rule: parse_elems_cases)
      case (more v1 r1 c r')
      have l: "length r1 < length cs" "length r' < length r1" "length r < length r'"
        using sh_v[OF more(1)] skip_ws_shorter[OF more(2)] sh_e[OF more(4)] by simp_all
      have "length cs - length r1 \<le> k" using l kl by simp
      then have pv: "parse_value k cs = Some (v1, r1)"
        using ih_v[OF more(1)] mono_v by blast
      have "length r' - length r \<le> k" using l kl by simp
      then have pe: "parse_elems k (acc @ [v1]) r' = Some (v, r)"
        using ih_e[OF more(4)] mono_e by blast
      have sk: "skip_ws r1 = 44 # r'" using more by simp
      show ?thesis unfolding k using parse_elems_more[OF pv sk] pe by simp
    next
      case (last v1 r1 c r')
      have l: "length r1 < length cs" "length r' < length r1" "r = r'"
        using sh_v[OF last(1)] skip_ws_shorter[OF last(2)] last(4) by simp_all
      have "length cs - length r1 \<le> k" using l kl by simp
      then have pv: "parse_value k cs = Some (v1, r1)"
        using ih_v[OF last(1)] mono_v by blast
      have sk: "skip_ws r1 = 93 # r'" using last by simp
      show ?thesis unfolding k using parse_elems_last[OF pv sk] last(4) by simp
    qed
  qed
  have m: "parse_members (length cs - length r) acc cs = Some (v, r)"
    if a: "parse_members (Suc n) acc cs = Some (v, r)" for acc cs v r
  proof -
    have "length r < length cs" using a by (rule sh_m)
    then obtain k where k: "length cs - length r = Suc k"
      by (metis Suc_diff_Suc)
    have kl: "length cs = Suc (k + length r)" using k by simp
    from a show ?thesis
    proof (cases rule: parse_members_cases)
      case (more r0 key r1 r2 v1 r3 c r4)
      have l: "length r0 < length cs" "length r1 < length r0" "length r2 < length r1"
        "length r3 < length r2" "length r4 < length r3" "length r < length r4"
        using skip_ws_shorter[OF more(1)] parse_chars_shorter[OF more(2)]
          skip_ws_shorter[OF more(3)] sh_v[OF more(4)] skip_ws_shorter[OF more(5)]
          sh_m[OF more(7)] by simp_all
      have "length r2 - length r3 \<le> k" using l kl by simp
      then have pv: "parse_value k r2 = Some (v1, r3)"
        using ih_v[OF more(4)] mono_v by blast
      have "length r4 - length r \<le> k" using l kl by simp
      then have pm: "parse_members k (obj_put key v1 acc) r4 = Some (v, r)"
        using ih_m[OF more(7)] mono_m by blast
      have sk: "skip_ws r3 = 44 # r4" using more by simp
      show ?thesis unfolding k using parse_members_more[OF more(1,2,3) pv sk] pm by simp
    next
      case (last r0 key r1 r2 v1 r3 c r4)
      have l: "length r0 < length cs" "length r1 < length r0" "length r2 < length r1"
        "length r3 < length r2" "length r4 < length r3" "r = r4"
        using skip_ws_shorter[OF last(1)] parse_chars_shorter[OF last(2)]
          skip_ws_shorter[OF last(3)] sh_v[OF last(4)] skip_ws_shorter[OF last(5)]
          last(7) by simp_all
      have "length r2 - length r3 \<le> k" using l kl by simp
      then have pv: "parse_value k r2 = Some (v1, r3)"
        using ih_v[OF last(4)] mono_v by blast
      have sk: "skip_ws r3 = 125 # r4" using last by simp
      show ?thesis unfolding k using parse_members_last[OF last(1,2,3) pv sk] last(7) by simp
    qed
  qed
  show ?case using v e m by blast
qed

text \<open>
  The fuel of \<open>JSON_parse\<close> never runs out: a text that some amount of fuel reads is
  read by \<open>JSON_parse\<close>, with the same value.
\<close>

lemma JSON_parse_fuel:
  "JSON_parse text = Some v \<longleftrightarrow> (\<exists>n r. parse_value n text = Some (v, r) \<and> skip_ws r = [])"
proof
  assume "JSON_parse text = Some v"
  then obtain r where "parse_value (Suc (length text)) text = Some (v, r)" "skip_ws r = []"
    by (auto simp: JSON_parse_def simp del: parse_value.simps split: option.splits if_splits)
  then show "\<exists>n r. parse_value n text = Some (v, r) \<and> skip_ws r = []" by blast
next
  assume "\<exists>n r. parse_value n text = Some (v, r) \<and> skip_ws r = []"
  then obtain n r where p: "parse_value n text = Some (v, r)" and w: "skip_ws r = []" by blast
  have "parse_value (length text - length r) text = Some (v, r)"
    using fuel_enough[of n] p by blast
  moreover have "length text - length r \<le> Suc (length text)" by simp
  ultimately have "parse_value (Suc (length text)) text = Some (v, r)"
    using fuel_mono[where n = "length text - length r" and m = "Suc (length text)"] by blast
  then show "JSON_parse text = Some v" using w by (simp add: JSON_parse_def)
qed

subsection \<open>The text a JSON value is read from\<close>

text \<open>
  A reader that succeeds has read a prefix \<open>u\<close> of its text and returns the rest; it gives
  the same value on \<open>u\<close> followed by any other text at which a number may end. So white
  space around a JSON text does not change what \<^verbatim>\<open>JSON.parse\<close> returns for it.
\<close>

lemma digits_frame:
  "list_all is_digit ip \<Longrightarrow> t = [] \<or> \<not> is_digit (hd t) \<Longrightarrow>
   takeWhile is_digit (ip @ t) = ip \<and> dropWhile is_digit (ip @ t) = t"
proof (induction ip)
  case Nil
  then show ?case by (cases t) simp_all
next
  case (Cons a ip)
  then show ?case by simp
qed

lemma digits_split:
  "s = takeWhile is_digit s @ dropWhile is_digit s \<and> list_all is_digit (takeWhile is_digit s)"
  by (simp add: list_all_iff) (meson set_takeWhileD)

lemma read_int_frame:
  assumes "read_int s = Some (ip, s2)"
  shows "s = ip @ s2 \<and> ip \<noteq> [] \<and> list_all is_digit ip
         \<and> (\<forall>t. (t = [] \<or> \<not> is_digit (hd t)) \<longrightarrow> read_int (ip @ t) = Some (ip, t))"
proof -
  have ip: "ip = takeWhile is_digit s" and s2: "s2 = dropWhile is_digit s"
    and ne: "ip \<noteq> []" and z: "\<not> (hd ip = 48 \<and> 1 < length ip)"
    using assms by (auto simp: read_int_def Let_def split: if_splits)
  have d: "list_all is_digit ip" and s: "s = ip @ s2"
    using digits_split[of s] ip s2 by simp_all
  have "read_int (ip @ t) = Some (ip, t)" if "t = [] \<or> \<not> is_digit (hd t)" for t
    using digits_frame[OF d that] ne z by (simp add: read_int_def Let_def)
  then show ?thesis using s ne d by blast
qed

lemma read_frac_frame:
  assumes "read_frac s = Some (fp, s3)"
  shows "\<exists>u. s = u @ s3 \<and> (u = [] \<or> (hd u = 46 \<and> is_digit (last u)))
         \<and> (\<forall>t. (t = [] \<or> (\<not> is_digit (hd t) \<and> hd t \<noteq> 46)) \<longrightarrow>
               read_frac (u @ t) = Some (fp, t))"
proof (cases "s \<noteq> [] \<and> hd s = 46")
  case True
  then have fp: "fp = takeWhile is_digit (tl s)" and s3: "s3 = dropWhile is_digit (tl s)"
    and ne: "fp \<noteq> []"
    using assms by (auto simp: read_frac_def Let_def split: if_splits)
  have d: "list_all is_digit fp" and tl: "tl s = fp @ s3"
    using digits_split[of "tl s"] fp s3 by simp_all
  have s: "s = (46 # fp) @ s3" using True tl by (cases s) simp_all
  have l: "is_digit (last (46 # fp))" using ne d by (simp add: list_all_iff)
  have "read_frac ((46 # fp) @ t) = Some (fp, t)" if "t = [] \<or> (\<not> is_digit (hd t) \<and> hd t \<noteq> 46)" for t
  proof -
    have "t = [] \<or> \<not> is_digit (hd t)" using that by blast
    then show ?thesis using digits_frame[OF d, of t] ne by (simp add: read_frac_def Let_def)
  qed
  then show ?thesis using s l by (intro exI[of _ "46 # fp"]) simp
next
  case False
  then have r: "fp = []" "s3 = s" using assms by (auto simp: read_frac_def split: if_splits)
  have "read_frac ([] @ t) = Some (fp, t)" if "t = [] \<or> (\<not> is_digit (hd t) \<and> hd t \<noteq> 46)" for t
    using that r by (auto simp: read_frac_def)
  then show ?thesis using r by (intro exI[of _ "[]"]) simp
qed

lemma read_exp_frame:
  assumes "read_exp s = Some ((eneg, ep), s4)"
  shows "\<exists>u. s = u @ s4 \<and> (u = [] \<or> ((hd u = 101 \<or> hd u = 69) \<and> is_digit (last u)))
         \<and> (\<forall>t. (t = [] \<or> (\<not> is_digit (hd t) \<and> hd t \<noteq> 101 \<and> hd t \<noteq> 69)) \<longrightarrow>
               read_exp (u @ t) = Some ((eneg, ep), t))"
proof (cases "s \<noteq> [] \<and> (hd s = 101 \<or> hd s = 69)")
  case True
  define t0 where "t0 = tl s"
  define sg where "sg = (if t0 \<noteq> [] \<and> (hd t0 = 43 \<or> hd t0 = 45) then [hd t0] else [])"
  define u0 where "u0 = (if t0 \<noteq> [] \<and> (hd t0 = 43 \<or> hd t0 = 45) then tl t0 else t0)"
  have en: "eneg = (t0 \<noteq> [] \<and> hd t0 = 45)" and ep: "ep = takeWhile is_digit u0"
    and s4: "s4 = dropWhile is_digit u0" and ne: "ep \<noteq> []"
    using assms True by (auto simp: read_exp_def Let_def t0_def u0_def split: if_splits)
  have d: "list_all is_digit ep" and u0: "u0 = ep @ s4"
    using digits_split[of u0] ep s4 by simp_all
  have t0: "t0 = sg @ u0" by (cases t0) (simp_all add: sg_def u0_def)
  have s: "s = (hd s # sg @ ep) @ s4" using True t0 u0 by (cases s) (simp_all add: t0_def)
  have hd_ep: "is_digit (hd ep)" using ne d by (cases ep) simp_all
  have nsign: "hd ep \<noteq> 43 \<and> hd ep \<noteq> 45" using hd_ep by (auto simp: is_digit_def)
  have l: "is_digit (last (hd s # sg @ ep))" using ne d by (simp add: list_all_iff)
  have sg_cases: "sg = [] \<and> \<not> (t0 \<noteq> [] \<and> (hd t0 = 43 \<or> hd t0 = 45))
      \<or> (sg = [hd t0] \<and> t0 \<noteq> [] \<and> (hd t0 = 43 \<or> hd t0 = 45))"
    by (simp add: sg_def)
  have "read_exp ((hd s # sg @ ep) @ t) = Some ((eneg, ep), t)"
    if "t = [] \<or> (\<not> is_digit (hd t) \<and> hd t \<noteq> 101 \<and> hd t \<noteq> 69)" for t
  proof -
    have nd: "t = [] \<or> \<not> is_digit (hd t)" using that by blast
    note f = digits_frame[OF d nd]
    show ?thesis
      using sg_cases
    proof
      assume a: "sg = [] \<and> \<not> (t0 \<noteq> [] \<and> (hd t0 = 43 \<or> hd t0 = 45))"
      then have "t0 = ep @ s4" using t0 u0 by simp
      then have "hd t0 = hd ep" using ne by (cases ep) simp_all
      then have e: "eneg = False" using en nsign by simp
      show ?thesis using a True f ne nsign e
        by (cases ep) (simp_all add: read_exp_def Let_def)
    next
      assume a: "sg = [hd t0] \<and> t0 \<noteq> [] \<and> (hd t0 = 43 \<or> hd t0 = 45)"
      show ?thesis using a True f ne en
        by (auto simp: read_exp_def Let_def)
    qed
  qed
  then show ?thesis using s l True by (intro exI[of _ "hd s # sg @ ep"]) simp
next
  case False
  then have r: "eneg = False" "ep = []" "s4 = s"
    using assms by (auto simp: read_exp_def split: if_splits)
  have "read_exp ([] @ t) = Some ((eneg, ep), t)"
    if "t = [] \<or> (\<not> is_digit (hd t) \<and> hd t \<noteq> 101 \<and> hd t \<noteq> 69)" for t
    using that r by (auto simp: read_exp_def)
  then show ?thesis using r by (intro exI[of _ "[]"]) simp
qed

lemma parse_number_frame:
  assumes "parse_number cs = Some (v, r)"
  shows "\<exists>u. cs = u @ r \<and> u \<noteq> [] \<and> is_digit (last u) \<and> (hd u = 45 \<or> is_digit (hd u))
         \<and> (\<forall>t. number_end t \<longrightarrow> parse_number (u @ t) = Some (v, t))"
proof -
  define neg where "neg = (cs \<noteq> [] \<and> hd cs = 45)"
  define s1 where "s1 = (if neg then tl cs else cs)"
  define sg where "sg = (if neg then [45::nat] else [])"
  obtain ip s2 fp s3 eneg ep where ri: "read_int s1 = Some (ip, s2)"
    and rf: "read_frac s2 = Some (fp, s3)"
    and re: "read_exp s3 = Some ((eneg, ep), r)"
    and v: "v = JNum (to_number (number_value neg ip fp eneg ep))"
    using assms unfolding parse_number_def Let_def neg_def s1_def
    by (auto split: option.splits prod.splits)
  have cs: "cs = sg @ s1" by (cases cs) (auto simp: sg_def s1_def neg_def)
  note i = read_int_frame[OF ri]
  obtain uf where uf: "s2 = uf @ s3" "uf = [] \<or> (hd uf = 46 \<and> is_digit (last uf))"
    "\<And>t. t = [] \<or> (\<not> is_digit (hd t) \<and> hd t \<noteq> 46) \<Longrightarrow> read_frac (uf @ t) = Some (fp, t)"
    using read_frac_frame[OF rf] by blast
  obtain ue where ue: "s3 = ue @ r" "ue = [] \<or> ((hd ue = 101 \<or> hd ue = 69) \<and> is_digit (last ue))"
    "\<And>t. t = [] \<or> (\<not> is_digit (hd t) \<and> hd t \<noteq> 101 \<and> hd t \<noteq> 69) \<Longrightarrow>
        read_exp (ue @ t) = Some ((eneg, ep), t)"
    using read_exp_frame[OF re] by blast
  let ?u = "sg @ ip @ uf @ ue"
  have ipne: "ip \<noteq> []" and ipd: "list_all is_digit ip" using i by simp_all
  have hdip: "is_digit (hd ip)" using ipne ipd by (cases ip) simp_all
  have lastip: "is_digit (last ip)" using ipne ipd by (simp add: list_all_iff)
  have a: "cs = ?u @ r" using cs i uf(1) ue(1) by simp
  have b: "?u \<noteq> []" using ipne by simp
  have c: "is_digit (last ?u)"
  proof (cases "ue = []")
    case False
    then show ?thesis using ue(2) by simp
  next
    case True
    show ?thesis
    proof (cases "uf = []")
      case False
      then show ?thesis using True uf(2) by simp
    next
      case uft: True
      show ?thesis using True uft lastip ipne by simp
    qed
  qed
  have d: "hd ?u = 45 \<or> is_digit (hd ?u)" using hdip ipne by (simp add: sg_def)
  have nd46: "\<not> is_digit 46" "\<not> is_digit 101" "\<not> is_digit 69" "\<not> is_digit 45"
    by (simp_all add: is_digit_def)
  have e: "parse_number (?u @ t) = Some (v, t)" if t: "number_end t" for t
  proof -
    have t3: "t = [] \<or> (\<not> is_digit (hd t) \<and> hd t \<noteq> 101 \<and> hd t \<noteq> 69)"
      using t by (auto simp: number_end_def)
    have t2: "(ue @ t) = [] \<or> (\<not> is_digit (hd (ue @ t)) \<and> hd (ue @ t) \<noteq> 46)"
    proof (cases "ue = []")
      case True
      then show ?thesis using t by (auto simp: number_end_def)
    next
      case False
      then show ?thesis using ue(2) nd46 by auto
    qed
    have t1: "(uf @ ue @ t) = [] \<or> \<not> is_digit (hd (uf @ ue @ t))"
    proof (cases "uf = []")
      case True
      then show ?thesis using t2 by auto
    next
      case False
      then show ?thesis using uf(2) nd46 by auto
    qed
    have n: "((?u @ t) \<noteq> [] \<and> hd (?u @ t) = 45) = neg"
    proof (cases neg)
      case True
      then show ?thesis by (simp add: sg_def)
    next
      case False
      then have "hd (?u @ t) = hd ip" using ipne by (simp add: sg_def)
      then show ?thesis using False hdip nd46 by auto
    qed
    have s: "(if neg then tl (?u @ t) else ?u @ t) = ip @ (uf @ ue @ t)"
      by (simp add: sg_def)
    have r1: "read_int (ip @ (uf @ ue @ t)) = Some (ip, uf @ ue @ t)"
      using i t1 by blast
    have r2: "read_frac (uf @ (ue @ t)) = Some (fp, ue @ t)" using uf(3)[OF t2] .
    have r3: "read_exp (ue @ t) = Some ((eneg, ep), t)" using ue(3)[OF t3] .
    show ?thesis
      unfolding parse_number_def Let_def n s r1 using r2 r3 v by simp
  qed
  show ?thesis using a b c d e by blast
qed

lemma take_drop_exact: "length p = n \<Longrightarrow> take n (p @ y) = p \<and> drop n (p @ y) = y"
  by simp

lemma hex4_append:
  assumes h: "hex4 r = Some x"
  shows "r = take 4 r @ drop 4 r" "length (take 4 r) = 4" "hex4 (take 4 r @ y) = Some x"
    "drop 4 (take 4 r @ y) = y"
proof -
  have "\<exists>a b c d. map hex_digit (take 4 r) = [a, b, c, d]"
    using h unfolding hex4_def by (auto split: list.splits option.splits)
  then obtain a b c d where m: "map hex_digit (take 4 r) = [a, b, c, d]" by (elim exE)
  have "length (map hex_digit (take 4 r)) = 4" unfolding m by simp
  then show l: "length (take 4 r) = 4" by (simp only: length_map)
  note e = take_drop_exact[OF l, of y]
  show "hex4 (take 4 r @ y) = Some x" using h by (simp only: hex4_def e)
  show "drop 4 (take 4 r @ y) = y" using e by blast
  show "r = take 4 r @ drop 4 r" by simp
qed

lemma parse_chars_frame:
  "parse_chars acc cs = Some (s, r) \<Longrightarrow>
   \<exists>u. cs = u @ r \<and> u \<noteq> [] \<and> last u = 34 \<and> (\<forall>t. parse_chars acc (u @ t) = Some (s, t))"
proof (induction acc cs rule: parse_chars.induct)
  case (1 acc)
  then show ?case by simp
next
  case (2 acc c cs)
  show ?case
  proof (cases "c = 34")
    case True
    then have "cs = r" "s = rev acc" using 2(4) by simp_all
    then show ?thesis using True by (intro exI[of _ "[34]"]) simp
  next
    case quote: False
    show ?thesis
    proof (cases "c = 92")
      case False
      then have p: "parse_chars (c # acc) cs = Some (s, r)"
        using 2(4) quote by (simp split: if_splits)
      have lt: "\<not> c < 32" using 2(4) quote False by (simp split: if_splits)
      obtain u where u: "cs = u @ r" "u \<noteq> []" "last u = 34"
        "\<And>t. parse_chars (c # acc) (u @ t) = Some (s, t)"
        using 2(3)[OF quote False lt p] by blast
      have "parse_chars acc ((c # u) @ t) = Some (s, t)" for t
        using u(4)[of t] quote False lt by simp
      then show ?thesis using u by (intro exI[of _ "c # u"]) simp
    next
      case True
      show ?thesis
      proof (cases cs)
        case Nil
        then show ?thesis using 2(4) quote True by simp
      next
        case (Cons e rest)
        show ?thesis
        proof (cases "e = 117")
          case u: True
          then obtain x where x: "hex4 rest = Some x"
            and p: "parse_chars (x # acc) (drop 4 rest) = Some (s, r)"
            using 2(4) quote True Cons by (auto split: option.splits)
          obtain w where w: "drop 4 rest = w @ r" "w \<noteq> []" "last w = 34"
            "\<And>t. parse_chars (x # acc) (w @ t) = Some (s, t)"
            using 2(1)[OF quote True Cons u x p] by blast
          note h = hex4_append[OF x]
          let ?u = "92 # 117 # take 4 rest @ w"
          have "rest = take 4 rest @ w @ r" using h(1) w(1) by simp
          then have a: "c # cs = ?u @ r" using True Cons u by simp
          have "parse_chars acc (?u @ t) = Some (s, t)" for t
          proof -
            have "hex4 (take 4 rest @ w @ t) = Some x" by (rule hex4_append(3)[OF x])
            moreover have "drop 4 (take 4 rest @ w @ t) = w @ t" by (rule hex4_append(4)[OF x])
            ultimately show ?thesis using w(4)[of t] by simp
          qed
          then show ?thesis using a w(2,3) by (intro exI[of _ ?u]) simp
        next
          case False
          then obtain x where x: "escape_char e = Some x"
            and p: "parse_chars (x # acc) rest = Some (s, r)"
            using 2(4) quote True Cons by (auto split: option.splits)
          obtain w where w: "rest = w @ r" "w \<noteq> []" "last w = 34"
            "\<And>t. parse_chars (x # acc) (w @ t) = Some (s, t)"
            using 2(2)[OF quote True Cons False x p] by blast
          let ?u = "92 # e # w"
          have a: "c # cs = ?u @ r" using True Cons w(1) by simp
          have "parse_chars acc (?u @ t) = Some (s, t)" for t
            using w(4)[of t] x False by simp
          then show ?thesis using a w(2,3) by (intro exI[of _ ?u]) simp
        qed
      qed
    qed
  qed
qed

lemma skip_ws_split:
  assumes "skip_ws cs = c # rest"
  obtains w where "cs = w @ c # rest" "list_all is_json_ws w" "\<not> is_json_ws c"
proof -
  have a: "cs = takeWhile is_json_ws cs @ c # rest"
    using assms takeWhile_dropWhile_id[of is_json_ws cs] by (simp add: skip_ws_def)
  have b: "list_all is_json_ws (takeWhile is_json_ws cs)"
    by (simp add: list_all_iff) (meson set_takeWhileD)
  have c: "\<not> is_json_ws c"
    using assms hd_dropWhile[of is_json_ws cs] by (auto simp: skip_ws_def)
  show ?thesis using that a b c by blast
qed

lemma skip_ws_append:
  "list_all is_json_ws w \<Longrightarrow> \<not> is_json_ws c \<Longrightarrow> skip_ws (w @ c # x) = c # x"
  by (induction w) (simp_all add: skip_ws_def)

lemma number_end_sep:
  "list_all is_json_ws w \<Longrightarrow> c = 44 \<or> c = 93 \<or> c = 125 \<Longrightarrow> number_end (w @ c # x)"
  by (cases w) (auto simp: number_end_def is_json_ws_def is_digit_def)

lemma json_ws_is_js_whitespace: "is_json_ws c \<Longrightarrow> is_js_whitespace c"
  by (auto simp: is_json_ws_def is_js_whitespace_def)

lemma parse_value_empty_object:
  "skip_ws cs = 123 # rest \<Longrightarrow> skip_ws rest = 125 # r' \<Longrightarrow>
   parse_value (Suc n) cs = Some (JObj [], r')"
  by simp

lemma parse_value_empty_array:
  "skip_ws cs = 91 # rest \<Longrightarrow> skip_ws rest = 93 # r' \<Longrightarrow>
   parse_value (Suc n) cs = Some (JArr [], r')"
  by simp

lemma parse_value_scalar:
  "skip_ws cs = c # rest \<Longrightarrow> c \<noteq> 123 \<Longrightarrow> c \<noteq> 91 \<Longrightarrow>
   parse_value (Suc n) cs =
     (if c = 34 then
        (case parse_chars [] rest of None \<Rightarrow> None | Some (s, r') \<Rightarrow> Some (JStr s, r'))
      else if prefix (js ''true'') (c # rest) then Some (JBool True, drop 4 (c # rest))
      else if prefix (js ''false'') (c # rest) then Some (JBool False, drop 5 (c # rest))
      else if prefix (js ''null'') (c # rest) then Some (JNull, drop 4 (c # rest))
      else parse_number (c # rest))"
  by simp

lemma literal_frame: "prefix lit s \<Longrightarrow> s = lit @ drop (length lit) s"
  by (auto simp: prefix_def)

lemma scalar_frame:
  assumes sk: "skip_ws cs = c # rest" and c: "c \<noteq> 123" "c \<noteq> 91"
    and p: "parse_value (Suc m) cs = Some (v, r)"
  shows "\<exists>u. cs = u @ r \<and> u \<noteq> [] \<and> \<not> is_js_whitespace (last u)
          \<and> (\<forall>t k. number_end t \<longrightarrow> parse_value (Suc k) (u @ t) = Some (v, t))"
proof -
  obtain w where w: "cs = w @ c # rest" "list_all is_json_ws w" "\<not> is_json_ws c"
    using skip_ws_split[OF sk] by blast
  note eq = parse_value_scalar[OF sk c]
  have goal: "\<exists>u. cs = u @ r \<and> u \<noteq> [] \<and> \<not> is_js_whitespace (last u)
          \<and> (\<forall>t k. number_end t \<longrightarrow> parse_value (Suc k) (u @ t) = Some (v, t))"
    if tok: "c # rest = tok @ r" "tok \<noteq> []" "\<not> is_js_whitespace (last tok)"
      and ext: "\<And>t k. number_end t \<Longrightarrow> parse_value (Suc k) ((w @ tok) @ t) = Some (v, t)"
    for tok
  proof -
    have "cs = (w @ tok) @ r" using w(1) tok(1) by simp
    moreover have "w @ tok \<noteq> []" using tok(2) by simp
    moreover have "\<not> is_js_whitespace (last (w @ tok))" using tok(2,3) by simp
    ultimately show ?thesis using ext by blast
  qed
  have sk': "skip_ws ((w @ tok) @ t) = c # tl tok @ t" if "c # rest = tok @ r" "tok \<noteq> []" for tok t
  proof -
    have "tok = c # tl tok" using that by (cases tok) simp_all
    then have "(w @ tok) @ t = w @ c # (tl tok @ t)" by (metis append.assoc append_Cons)
    then show ?thesis by (simp only: skip_ws_append[OF w(2,3)])
  qed
  show ?thesis
  proof (cases "c = 34")
    case True
    then obtain s where pc: "parse_chars [] rest = Some (s, r)" and v: "v = JStr s"
      using p eq by (auto split: option.splits)
    obtain u where u: "rest = u @ r" "u \<noteq> []" "last u = 34"
      "\<And>t. parse_chars [] (u @ t) = Some (s, t)"
      using parse_chars_frame[OF pc] by blast
    let ?tok = "c # u"
    have t1: "c # rest = ?tok @ r" using u(1) by simp
    have t3: "\<not> is_js_whitespace (last ?tok)" using u(2,3) by (simp add: is_js_whitespace_def)
    have "parse_value (Suc k) ((w @ ?tok) @ t) = Some (v, t)" for t k
    proof -
      have "skip_ws ((w @ ?tok) @ t) = c # (u @ t)" using sk'[OF t1, of t] by simp
      then show ?thesis using parse_value_scalar[OF _ c, of "(w @ ?tok) @ t" "u @ t" k] True u(4)[of t] v
        by simp
    qed
    then show ?thesis using goal[OF t1 _ t3] by simp
  next
    case nq: False
    show ?thesis
    proof (cases "prefix (js ''true'') (c # rest)")
      case True
      then have v: "v = JBool True" and r: "r = drop 4 (c # rest)" using p eq nq by simp_all
      let ?tok = "js ''true''"
      have l: "length ?tok = 4" by (simp add: js_def)
      have t1: "c # rest = ?tok @ r" using literal_frame[OF True] by (simp only: l r)
      have t3: "\<not> is_js_whitespace (last ?tok)" by (simp add: js_def is_js_whitespace_def)
      have hd: "c = 116" using t1 by (simp add: js_def)
      have "parse_value (Suc k) ((w @ ?tok) @ t) = Some (v, t)" for t k
      proof -
        have s: "skip_ws ((w @ ?tok) @ t) = c # (tl ?tok @ t)"
          using sk'[OF t1, of t] by (simp add: js_def)
        have e: "c # (tl ?tok @ t) = ?tok @ t" using hd by (simp add: js_def)
        show ?thesis using parse_value_scalar[OF s c, of k] nq v l
          unfolding e by (simp add: js_def)
      qed
      then show ?thesis using goal[OF t1 _ t3] by (simp add: js_def)
    next
      case nt: False
      show ?thesis
      proof (cases "prefix (js ''false'') (c # rest)")
        case True
        then have v: "v = JBool False" and r: "r = drop 5 (c # rest)" using p eq nq nt by simp_all
        let ?tok = "js ''false''"
        have l: "length ?tok = 5" by (simp add: js_def)
        have t1: "c # rest = ?tok @ r" using literal_frame[OF True] by (simp only: l r)
        have t3: "\<not> is_js_whitespace (last ?tok)" by (simp add: js_def is_js_whitespace_def)
        have hd: "c = 102" using t1 by (simp add: js_def)
        have "parse_value (Suc k) ((w @ ?tok) @ t) = Some (v, t)" for t k
        proof -
          have s: "skip_ws ((w @ ?tok) @ t) = c # (tl ?tok @ t)"
            using sk'[OF t1, of t] by (simp add: js_def)
          have e: "c # (tl ?tok @ t) = ?tok @ t" using hd by (simp add: js_def)
          show ?thesis using parse_value_scalar[OF s c, of k] nq v l
            unfolding e by (simp add: js_def)
        qed
        then show ?thesis using goal[OF t1 _ t3] by (simp add: js_def)
      next
        case nf: False
        show ?thesis
        proof (cases "prefix (js ''null'') (c # rest)")
          case True
          then have v: "v = JNull" and r: "r = drop 4 (c # rest)" using p eq nq nt nf by simp_all
          let ?tok = "js ''null''"
          have l: "length ?tok = 4" by (simp add: js_def)
          have t1: "c # rest = ?tok @ r" using literal_frame[OF True] by (simp only: l r)
          have t3: "\<not> is_js_whitespace (last ?tok)" by (simp add: js_def is_js_whitespace_def)
          have hd: "c = 110" using t1 by (simp add: js_def)
          have "parse_value (Suc k) ((w @ ?tok) @ t) = Some (v, t)" for t k
          proof -
            have s: "skip_ws ((w @ ?tok) @ t) = c # (tl ?tok @ t)"
              using sk'[OF t1, of t] by (simp add: js_def)
            have e: "c # (tl ?tok @ t) = ?tok @ t" using hd by (simp add: js_def)
            show ?thesis using parse_value_scalar[OF s c, of k] nq v l
              unfolding e by (simp add: js_def)
          qed
          then show ?thesis using goal[OF t1 _ t3] by (simp add: js_def)
        next
          case nn: False
          then have pn: "parse_number (c # rest) = Some (v, r)" using p eq nq nt nf by simp
          obtain u where u: "c # rest = u @ r" "u \<noteq> []" "is_digit (last u)"
            "hd u = 45 \<or> is_digit (hd u)"
            "\<And>t. number_end t \<Longrightarrow> parse_number (u @ t) = Some (v, t)"
            using parse_number_frame[OF pn] by blast
          have t3: "\<not> is_js_whitespace (last u)"
            using u(3) by (auto simp: is_digit_def is_js_whitespace_def)
          have hdu: "hd u = c" using u(1,2) by (cases u) simp_all
          have cnum: "c = 45 \<or> is_digit c" using u(4) hdu by simp
          have "parse_value (Suc k) ((w @ u) @ t) = Some (v, t)" if t: "number_end t" for t k
          proof -
            have s: "skip_ws ((w @ u) @ t) = c # (tl u @ t)" using sk'[OF u(1,2), of t] .
            have e: "c # (tl u @ t) = u @ t" using hdu u(2) by (cases u) simp_all
            have np: "\<not> prefix (js ''true'') (u @ t)" "\<not> prefix (js ''false'') (u @ t)"
              "\<not> prefix (js ''null'') (u @ t)"
              using cnum hdu u(2) by (cases u; auto simp: js_def is_digit_def)+
            show ?thesis using parse_value_scalar[OF s c, of k] nq np u(5)[OF t]
              unfolding e by simp
          qed
          then show ?thesis using goal[OF u(1,2) t3] by blast
        qed
      qed
    qed
  qed
qed

lemma value_start:
  assumes "parse_value n cs = Some res"
  shows "\<exists>c rest. skip_ws cs = c # rest \<and> c \<noteq> 93 \<and> c \<noteq> 125 \<and> \<not> is_js_whitespace c"
proof -
  obtain m where n: "n = Suc m" using assms by (cases n) simp_all
  have ws: "\<not> is_js_whitespace 123" "\<not> is_js_whitespace 91" "\<not> is_js_whitespace 34"
    "\<not> is_js_whitespace 116" "\<not> is_js_whitespace 102" "\<not> is_js_whitespace 110"
    "\<not> is_js_whitespace 45"
    by (simp_all add: is_js_whitespace_def)
  have "parse_value (Suc m) cs = Some res" using assms n by simp
  then show ?thesis
  proof (cases rule: parse_value_cases)
    case (empty_object rest d r')
    then show ?thesis using ws by simp
  next
    case (object rest d r')
    then show ?thesis using ws by simp
  next
    case (empty_array rest d r')
    then show ?thesis using ws by simp
  next
    case (array rest d r')
    then show ?thesis using ws by simp
  next
    case (scalar c rest)
    obtain v r where res: "res = (v, r)" by (cases res)
    have p: "parse_value (Suc m) cs = Some (v, r)" using scalar(4) res by simp
    note eq = parse_value_scalar[OF scalar(1,2,3), of m]
    have "c = 34 \<or> c = 116 \<or> c = 102 \<or> c = 110 \<or> c = 45 \<or> is_digit c"
    proof (cases "c = 34 \<or> c = 116 \<or> c = 102 \<or> c = 110")
      case True
      then show ?thesis by blast
    next
      case False
      then have "\<not> prefix (js ''true'') (c # rest)" "\<not> prefix (js ''false'') (c # rest)"
        "\<not> prefix (js ''null'') (c # rest)"
        by (simp_all add: js_def)
      then have "parse_number (c # rest) = Some (v, r)" using p eq False by simp
      then obtain u where u: "c # rest = u @ r" "u \<noteq> []" "hd u = 45 \<or> is_digit (hd u)"
        using parse_number_frame by blast
      have "hd u = c" using u(1,2) by (cases u) simp_all
      then show ?thesis using u(3) by simp
    qed
    then have "c \<noteq> 93 \<and> c \<noteq> 125 \<and> \<not> is_js_whitespace c"
      using ws by (auto simp: is_digit_def is_js_whitespace_def)
    then show ?thesis using scalar(1) by simp
  qed
qed

lemma readers_frame:
  "(\<forall>cs v r. parse_value n cs = Some (v, r) \<longrightarrow>
      (\<exists>u. cs = u @ r \<and> u \<noteq> [] \<and> \<not> is_js_whitespace (last u)
           \<and> (\<forall>t. number_end t \<longrightarrow> parse_value n (u @ t) = Some (v, t))))
   \<and> (\<forall>acc cs v r. parse_elems n acc cs = Some (v, r) \<longrightarrow>
      (\<exists>u. cs = u @ r \<and> u \<noteq> [] \<and> last u = 93
           \<and> (\<forall>t. parse_elems n acc (u @ t) = Some (v, t))))
   \<and> (\<forall>acc cs v r. parse_members n acc cs = Some (v, r) \<longrightarrow>
      (\<exists>u. cs = u @ r \<and> u \<noteq> [] \<and> last u = 125
           \<and> (\<forall>t. parse_members n acc (u @ t) = Some (v, t))))"
proof (induction n)
  case 0
  show ?case by simp
next
  case (Suc n)
  note ih_v = Suc[THEN conjunct1, rule_format]
  note ih_e = Suc[THEN conjunct2, THEN conjunct1, rule_format]
  note ih_m = Suc[THEN conjunct2, THEN conjunct2, rule_format]
  have nws: "\<not> is_json_ws 123" "\<not> is_json_ws 125" "\<not> is_json_ws 91" "\<not> is_json_ws 93"
    "\<not> is_json_ws 44" "\<not> is_json_ws 34" "\<not> is_json_ws 58"
    by (simp_all add: is_json_ws_def)
  have njs: "\<not> is_js_whitespace 125" "\<not> is_js_whitespace 93"
    by (simp_all add: is_js_whitespace_def)
  have v: "\<exists>u. cs = u @ r \<and> u \<noteq> [] \<and> \<not> is_js_whitespace (last u)
           \<and> (\<forall>t. number_end t \<longrightarrow> parse_value (Suc n) (u @ t) = Some (v, t))"
    if a: "parse_value (Suc n) cs = Some (v, r)" for cs v r
    using a
  proof (cases rule: parse_value_cases)
    case (empty_object rest d r')
    obtain w1 where w1: "cs = w1 @ 123 # rest" "list_all is_json_ws w1"
      using skip_ws_split[OF empty_object(1)] by blast
    have sk2: "skip_ws rest = 125 # r'" using empty_object by simp
    obtain w2 where w2: "rest = w2 @ 125 # r'" "list_all is_json_ws w2"
      using skip_ws_split[OF sk2] by blast
    have vr: "v = JObj []" "r = r'" using empty_object(4) by simp_all
    let ?u = "w1 @ 123 # w2 @ [125]"
    have c1: "cs = ?u @ r" using w1(1) w2(1) vr by simp
    have "parse_value (Suc n) (?u @ t) = Some (v, t)" for t
    proof -
      have e: "?u @ t = w1 @ 123 # (w2 @ 125 # t)" by simp
      have s1: "skip_ws (?u @ t) = 123 # (w2 @ 125 # t)"
        unfolding e using w1(2) nws(1) by (rule skip_ws_append)
      have s2: "skip_ws (w2 @ 125 # t) = 125 # t" using w2(2) nws(2) by (rule skip_ws_append)
      show ?thesis using parse_value_empty_object[OF s1 s2, of n] vr by simp
    qed
    then show ?thesis using c1 njs by (intro exI[of _ ?u]) simp
  next
    case (object rest d r')
    obtain w1 where w1: "cs = w1 @ 123 # rest" "list_all is_json_ws w1"
      using skip_ws_split[OF object(1)] by blast
    obtain u' where u': "rest = u' @ r" "u' \<noteq> []" "last u' = 125"
      "\<And>t. parse_members n [] (u' @ t) = Some (v, t)"
      using ih_m[OF object(4)] by blast
    let ?u = "w1 @ 123 # u'"
    have c1: "cs = ?u @ r" using w1(1) u'(1) by simp
    have "parse_value (Suc n) (?u @ t) = Some (v, t)" for t
    proof -
      have e: "?u @ t = w1 @ 123 # (u' @ t)" by simp
      have s1: "skip_ws (?u @ t) = 123 # (u' @ t)"
        unfolding e using w1(2) nws(1) by (rule skip_ws_append)
      have pm: "parse_members n [] (u' @ t) = Some (v, t)" by (rule u'(4))
      then obtain k where k: "n = Suc k" by (cases n) simp_all
      have "\<exists>r0. skip_ws (u' @ t) = 34 # r0"
        using pm unfolding k by (cases rule: parse_members_cases) blast+
      then obtain r0 where s2: "skip_ws (u' @ t) = 34 # r0" by blast
      have "parse_value (Suc n) (?u @ t) = parse_members n [] (u' @ t)"
        using s1 s2 by (rule parse_value_object) simp
      then show ?thesis using pm by simp
    qed
    then show ?thesis using c1 u'(2,3) njs by (intro exI[of _ ?u]) simp
  next
    case (empty_array rest d r')
    obtain w1 where w1: "cs = w1 @ 91 # rest" "list_all is_json_ws w1"
      using skip_ws_split[OF empty_array(1)] by blast
    have sk2: "skip_ws rest = 93 # r'" using empty_array by simp
    obtain w2 where w2: "rest = w2 @ 93 # r'" "list_all is_json_ws w2"
      using skip_ws_split[OF sk2] by blast
    have vr: "v = JArr []" "r = r'" using empty_array(4) by simp_all
    let ?u = "w1 @ 91 # w2 @ [93]"
    have c1: "cs = ?u @ r" using w1(1) w2(1) vr by simp
    have "parse_value (Suc n) (?u @ t) = Some (v, t)" for t
    proof -
      have e: "?u @ t = w1 @ 91 # (w2 @ 93 # t)" by simp
      have s1: "skip_ws (?u @ t) = 91 # (w2 @ 93 # t)"
        unfolding e using w1(2) nws(3) by (rule skip_ws_append)
      have s2: "skip_ws (w2 @ 93 # t) = 93 # t" using w2(2) nws(4) by (rule skip_ws_append)
      show ?thesis using parse_value_empty_array[OF s1 s2, of n] vr by simp
    qed
    then show ?thesis using c1 njs by (intro exI[of _ ?u]) simp
  next
    case (array rest d r')
    obtain w1 where w1: "cs = w1 @ 91 # rest" "list_all is_json_ws w1"
      using skip_ws_split[OF array(1)] by blast
    obtain u' where u': "rest = u' @ r" "u' \<noteq> []" "last u' = 93"
      "\<And>t. parse_elems n [] (u' @ t) = Some (v, t)"
      using ih_e[OF array(4)] by blast
    let ?u = "w1 @ 91 # u'"
    have c1: "cs = ?u @ r" using w1(1) u'(1) by simp
    have "parse_value (Suc n) (?u @ t) = Some (v, t)" for t
    proof -
      have e: "?u @ t = w1 @ 91 # (u' @ t)" by simp
      have s1: "skip_ws (?u @ t) = 91 # (u' @ t)"
        unfolding e using w1(2) nws(3) by (rule skip_ws_append)
      have pe: "parse_elems n [] (u' @ t) = Some (v, t)" by (rule u'(4))
      then obtain k where k: "n = Suc k" by (cases n) simp_all
      have "\<exists>x. parse_value k (u' @ t) = Some x"
        using pe unfolding k by (cases rule: parse_elems_cases) blast+
      then obtain x where "parse_value k (u' @ t) = Some x" by blast
      then obtain c0 r0 where s2: "skip_ws (u' @ t) = c0 # r0" and c0: "c0 \<noteq> 93"
        using value_start by blast
      have "parse_value (Suc n) (?u @ t) = parse_elems n [] (u' @ t)"
        using s1 s2 c0 by (rule parse_value_array)
      then show ?thesis using pe by simp
    qed
    then show ?thesis using c1 u'(2,3) njs by (intro exI[of _ ?u]) simp
  next
    case (scalar c rest)
    show ?thesis using scalar_frame[OF scalar(1,2,3) a] by blast
  qed
  have e: "\<exists>u. cs = u @ r \<and> u \<noteq> [] \<and> last u = 93
           \<and> (\<forall>t. parse_elems (Suc n) acc (u @ t) = Some (v, t))"
    if a: "parse_elems (Suc n) acc cs = Some (v, r)" for acc cs v r
    using a
  proof (cases rule: parse_elems_cases)
    case (more v1 r1 c r')
    obtain u1 where u1: "cs = u1 @ r1" "u1 \<noteq> []"
      "\<And>t. number_end t \<Longrightarrow> parse_value n (u1 @ t) = Some (v1, t)"
      using ih_v[OF more(1)] by blast
    have sk: "skip_ws r1 = 44 # r'" using more by simp
    obtain w where w: "r1 = w @ 44 # r'" "list_all is_json_ws w"
      using skip_ws_split[OF sk] by blast
    obtain u2 where u2: "r' = u2 @ r" "u2 \<noteq> []" "last u2 = 93"
      "\<And>t. parse_elems n (acc @ [v1]) (u2 @ t) = Some (v, t)"
      using ih_e[OF more(4)] by blast
    let ?u = "u1 @ w @ 44 # u2"
    have c1: "cs = ?u @ r" using u1(1) w(1) u2(1) by simp
    have "parse_elems (Suc n) acc (?u @ t) = Some (v, t)" for t
    proof -
      have e: "?u @ t = u1 @ (w @ 44 # (u2 @ t))" by simp
      have ne: "number_end (w @ 44 # (u2 @ t))" using w(2) by (rule number_end_sep) simp
      have pv: "parse_value n (?u @ t) = Some (v1, w @ 44 # (u2 @ t))"
        unfolding e using ne by (rule u1(3))
      have s: "skip_ws (w @ 44 # (u2 @ t)) = 44 # (u2 @ t)"
        using w(2) nws(5) by (rule skip_ws_append)
      have "parse_elems (Suc n) acc (?u @ t) = parse_elems n (acc @ [v1]) (u2 @ t)"
        using pv s by (rule parse_elems_more)
      then show ?thesis using u2(4)[of t] by simp
    qed
    then show ?thesis using c1 u2(2,3) by (intro exI[of _ ?u]) simp
  next
    case (last v1 r1 c r')
    obtain u1 where u1: "cs = u1 @ r1" "u1 \<noteq> []"
      "\<And>t. number_end t \<Longrightarrow> parse_value n (u1 @ t) = Some (v1, t)"
      using ih_v[OF last(1)] by blast
    have sk: "skip_ws r1 = 93 # r'" using last by simp
    obtain w where w: "r1 = w @ 93 # r'" "list_all is_json_ws w"
      using skip_ws_split[OF sk] by blast
    have vr: "v = JArr (acc @ [v1])" "r = r'" using last(4) by simp_all
    let ?u = "u1 @ w @ [93]"
    have c1: "cs = ?u @ r" using u1(1) w(1) vr by simp
    have "parse_elems (Suc n) acc (?u @ t) = Some (v, t)" for t
    proof -
      have e: "?u @ t = u1 @ (w @ 93 # t)" by simp
      have ne: "number_end (w @ 93 # t)" using w(2) by (rule number_end_sep) simp
      have pv: "parse_value n (?u @ t) = Some (v1, w @ 93 # t)"
        unfolding e using ne by (rule u1(3))
      have s: "skip_ws (w @ 93 # t) = 93 # t" using w(2) nws(4) by (rule skip_ws_append)
      show ?thesis using parse_elems_last[OF pv s, of acc] vr by simp
    qed
    then show ?thesis using c1 by (intro exI[of _ ?u]) simp
  qed
  have m: "\<exists>u. cs = u @ r \<and> u \<noteq> [] \<and> last u = 125
           \<and> (\<forall>t. parse_members (Suc n) acc (u @ t) = Some (v, t))"
    if a: "parse_members (Suc n) acc cs = Some (v, r)" for acc cs v r
    using a
  proof (cases rule: parse_members_cases)
    case (more r0 k r1 r2 v1 r3 c r4)
    obtain w0 where w0: "cs = w0 @ 34 # r0" "list_all is_json_ws w0"
      using skip_ws_split[OF more(1)] by blast
    obtain uk where uk: "r0 = uk @ r1" "\<And>t. parse_chars [] (uk @ t) = Some (k, t)"
      using parse_chars_frame[OF more(2)] by blast
    obtain w1 where w1: "r1 = w1 @ 58 # r2" "list_all is_json_ws w1"
      using skip_ws_split[OF more(3)] by blast
    obtain uv where uv: "r2 = uv @ r3"
      "\<And>t. number_end t \<Longrightarrow> parse_value n (uv @ t) = Some (v1, t)"
      using ih_v[OF more(4)] by blast
    have sk: "skip_ws r3 = 44 # r4" using more by simp
    obtain w3 where w3: "r3 = w3 @ 44 # r4" "list_all is_json_ws w3"
      using skip_ws_split[OF sk] by blast
    obtain um where um: "r4 = um @ r" "um \<noteq> []" "last um = 125"
      "\<And>t. parse_members n (obj_put k v1 acc) (um @ t) = Some (v, t)"
      using ih_m[OF more(7)] by blast
    let ?u = "w0 @ 34 # uk @ w1 @ 58 # uv @ w3 @ 44 # um"
    have c1: "cs = ?u @ r" using w0(1) uk(1) w1(1) uv(1) w3(1) um(1) by simp
    have "parse_members (Suc n) acc (?u @ t) = Some (v, t)" for t
    proof -
      let ?y = "w3 @ 44 # (um @ t)"
      let ?x = "w1 @ 58 # (uv @ ?y)"
      have e: "?u @ t = w0 @ 34 # (uk @ ?x)" by simp
      have s0: "skip_ws (?u @ t) = 34 # (uk @ ?x)"
        unfolding e using w0(2) nws(6) by (rule skip_ws_append)
      have pc: "parse_chars [] (uk @ ?x) = Some (k, ?x)" by (rule uk(2))
      have s1: "skip_ws ?x = 58 # (uv @ ?y)" using w1(2) nws(7) by (rule skip_ws_append)
      have ne: "number_end ?y" using w3(2) by (rule number_end_sep) simp
      have pv: "parse_value n (uv @ ?y) = Some (v1, ?y)" using ne by (rule uv(2))
      have s3: "skip_ws ?y = 44 # (um @ t)" using w3(2) nws(5) by (rule skip_ws_append)
      have "parse_members (Suc n) acc (?u @ t) = parse_members n (obj_put k v1 acc) (um @ t)"
        using s0 pc s1 pv s3 by (rule parse_members_more)
      then show ?thesis using um(4)[of t] by simp
    qed
    then show ?thesis using c1 um(2,3) by (intro exI[of _ ?u]) simp
  next
    case (last r0 k r1 r2 v1 r3 c r4)
    obtain w0 where w0: "cs = w0 @ 34 # r0" "list_all is_json_ws w0"
      using skip_ws_split[OF last(1)] by blast
    obtain uk where uk: "r0 = uk @ r1" "\<And>t. parse_chars [] (uk @ t) = Some (k, t)"
      using parse_chars_frame[OF last(2)] by blast
    obtain w1 where w1: "r1 = w1 @ 58 # r2" "list_all is_json_ws w1"
      using skip_ws_split[OF last(3)] by blast
    obtain uv where uv: "r2 = uv @ r3"
      "\<And>t. number_end t \<Longrightarrow> parse_value n (uv @ t) = Some (v1, t)"
      using ih_v[OF last(4)] by blast
    have sk: "skip_ws r3 = 125 # r4" using last by simp
    obtain w3 where w3: "r3 = w3 @ 125 # r4" "list_all is_json_ws w3"
      using skip_ws_split[OF sk] by blast
    have vr: "v = JObj (obj_put k v1 acc)" "r = r4" using last(7) by simp_all
    let ?u = "w0 @ 34 # uk @ w1 @ 58 # uv @ w3 @ [125]"
    have c1: "cs = ?u @ r" using w0(1) uk(1) w1(1) uv(1) w3(1) vr by simp
    have "parse_members (Suc n) acc (?u @ t) = Some (v, t)" for t
    proof -
      let ?y = "w3 @ 125 # t"
      let ?x = "w1 @ 58 # (uv @ ?y)"
      have e: "?u @ t = w0 @ 34 # (uk @ ?x)" by simp
      have s0: "skip_ws (?u @ t) = 34 # (uk @ ?x)"
        unfolding e using w0(2) nws(6) by (rule skip_ws_append)
      have pc: "parse_chars [] (uk @ ?x) = Some (k, ?x)" by (rule uk(2))
      have s1: "skip_ws ?x = 58 # (uv @ ?y)" using w1(2) nws(7) by (rule skip_ws_append)
      have ne: "number_end ?y" using w3(2) by (rule number_end_sep) simp
      have pv: "parse_value n (uv @ ?y) = Some (v1, ?y)" using ne by (rule uv(2))
      have s3: "skip_ws ?y = 125 # t" using w3(2) nws(2) by (rule skip_ws_append)
      show ?thesis using parse_members_last[OF s0 pc s1 pv s3, of acc] vr by simp
    qed
    then show ?thesis using c1 by (intro exI[of _ ?u]) simp
  qed
  show ?case using v e m by blast
qed

lemma dropWhile_all: "list_all P w \<Longrightarrow> \<not> P c \<Longrightarrow> dropWhile P (w @ c # x) = c # x"
  by (induction w) simp_all

lemma JSON_parse_leading:
  assumes "JSON_parse j = Some v"
  shows "JSON_parse (dropWhile is_js_whitespace j) = Some v"
proof -
  obtain n r where p: "parse_value n j = Some (v, r)" and r: "skip_ws r = []"
    using assms JSON_parse_fuel by blast
  obtain m where n: "n = Suc m" using p by (cases n) simp_all
  obtain c rest where sk: "skip_ws j = c # rest" and c: "\<not> is_js_whitespace c"
    using value_start[OF p] by blast
  obtain w where w: "j = w @ c # rest" "list_all is_json_ws w"
    using skip_ws_split[OF sk] by blast
  have "list_all is_js_whitespace w"
    using w(2) json_ws_is_js_whitespace by (simp add: list_all_iff)
  then have d: "dropWhile is_js_whitespace j = c # rest"
    unfolding w(1) using c by (rule dropWhile_all)
  have "\<not> is_json_ws c" using c json_ws_is_js_whitespace by blast
  then have s: "skip_ws (c # rest) = skip_ws j" using sk by (simp add: skip_ws_def)
  have "parse_value (Suc m) (c # rest) = parse_value (Suc m) j" using s by simp
  then have "parse_value n (dropWhile is_js_whitespace j) = Some (v, r)"
    using p n d by simp
  then show ?thesis using r JSON_parse_fuel by blast
qed

lemma JSON_parse_trailing:
  assumes "JSON_parse j = Some v"
  shows "JSON_parse (rev (dropWhile is_js_whitespace (rev j))) = Some v"
proof -
  obtain n r where p: "parse_value n j = Some (v, r)" and r: "skip_ws r = []"
    using assms JSON_parse_fuel by blast
  obtain u where u: "j = u @ r" "u \<noteq> []" "\<not> is_js_whitespace (last u)"
    "\<And>t. number_end t \<Longrightarrow> parse_value n (u @ t) = Some (v, t)"
    using readers_frame[of n, THEN conjunct1, rule_format, OF p] by blast
  have "\<forall>x\<in>set r. is_json_ws x" using r by (simp add: skip_ws_def dropWhile_eq_Nil_conv)
  then have rw: "\<And>x. x \<in> set (rev r) \<Longrightarrow> is_js_whitespace x"
    using json_ws_is_js_whitespace by simp
  have "dropWhile is_js_whitespace (rev r @ rev u) = dropWhile is_js_whitespace (rev u)"
    using rw by (rule dropWhile_append2)
  moreover have "dropWhile is_js_whitespace (rev u) = rev u"
    using u(2,3) by (cases "rev u") (simp_all add: last_rev[symmetric] del: last_rev)
  ultimately have "rev (dropWhile is_js_whitespace (rev j)) = u" by (simp add: u(1))
  moreover have "parse_value n (u @ []) = Some (v, [])"
    by (rule u(4)) (simp add: number_end_def)
  ultimately have "parse_value n (rev (dropWhile is_js_whitespace (rev j))) = Some (v, [])"
    by simp
  moreover have "skip_ws [] = []" by (simp add: skip_ws_def)
  ultimately show ?thesis using JSON_parse_fuel by blast
qed

lemma JSON_parse_trim: "JSON_parse j = Some v \<Longrightarrow> JSON_parse (trim j) = Some v"
  unfolding trim_def by (intro JSON_parse_trailing JSON_parse_leading)

subsection \<open>The rate limiter\<close>









subsection \<open>The input sanitizer\<close>

lemma trim_Nil_or_hd: "trim s = [] \<or> \<not> is_js_whitespace (hd (trim s))"
proof (cases "dropWhile is_js_whitespace s")
  case Nil
  have "trim s = []" unfolding trim_def Nil by simp
  then show ?thesis by simp
next
  case (Cons x xs)
  then have x: "\<not> is_js_whitespace x"
    using hd_dropWhile[of is_js_whitespace s] by simp
  let ?d = "x # xs"
  have mem: "x \<in> set (rev ?d)" by simp
  have ne: "dropWhile is_js_whitespace (rev ?d) \<noteq> []"
    using x mem by (simp only: dropWhile_eq_Nil_conv) blast
  have "last (dropWhile is_js_whitespace (rev ?d)) = last (rev ?d)"
    using dropWhile_last[of x "rev ?d" is_js_whitespace] mem x by blast
  then have "last (dropWhile is_js_whitespace (rev ?d)) = x" by simp
  then have "hd (rev (dropWhile is_js_whitespace (rev ?d))) = x"
    using ne by (simp add: hd_rev)
  then show ?thesis using x Cons by (simp add: trim_def)
qed

lemma trim_Nil_or_last: "trim s = [] \<or> \<not> is_js_whitespace (last (trim s))"
proof (cases "dropWhile is_js_whitespace (rev (dropWhile is_js_whitespace s)) = []")
  case True
  then show ?thesis by (simp add: trim_def)
next
  case False
  then have "\<not> is_js_whitespace (hd (dropWhile is_js_whitespace (rev (dropWhile is_js_whitespace s))))"
    using hd_dropWhile by blast
  then show ?thesis using False by (simp add: trim_def last_rev)
qed

lemma set_trim: "set (trim s) \<subseteq> set s"
proof -
  have d: "set (dropWhile P xs) \<subseteq> set xs" for P :: "nat \<Rightarrow> bool" and xs
    by (auto dest: set_dropWhileD)
  have "set (trim s) = set (dropWhile is_js_whitespace (rev (dropWhile is_js_whitespace s)))"
    by (simp add: trim_def)
  also have "\<dots> \<subseteq> set (rev (dropWhile is_js_whitespace s))" by (rule d)
  also have "\<dots> \<subseteq> set s" using d[of is_js_whitespace s] by simp
  finally show ?thesis .
qed

lemma sanitize_long_input: "sanitizeString long_input = replicate 499 97 @ [32]"
proof -
  let ?s = "replicate 499 (97::nat) @ [32, 98]"
  have f: "filter (\<lambda>c. c \<noteq> 60 \<and> c \<noteq> 62) ?s = ?s" by simp
  have d1: "dropWhile is_js_whitespace ?s = ?s"
    by (simp add: dropWhile_eq_self_iff hd_append is_js_whitespace_def)
  have r: "rev ?s = 98 # 32 # replicate 499 97" by simp
  have d2: "dropWhile is_js_whitespace (rev ?s) = rev ?s"
    unfolding r by (simp add: is_js_whitespace_def)
  have t: "trim ?s = ?s" by (simp only: trim_def d1 d2 rev_rev_ident)
  have "take 500 ?s = replicate 499 97 @ [32]" by simp
  then show ?thesis
    by (simp only: long_input_def js_def sanitizeString_def MAX_STRING_LENGTH_def jsval.case f t)
       (simp add: js_def f t)
qed

text \<open>
  C5, as the code has it. For every value \<open>v\<close>, \<^verbatim>\<open>sanitizeString(v)\<close> contains no
  \<^verbatim>\<open><\<close> and no \<^verbatim>\<open>>\<close>, has at most 500 code units, does not start with white space, and
  is empty when \<open>v\<close> is not a string. For a string it is the first 500 code units of the
  stripped and trimmed text, so it does not end in white space when that text has at
  most 500 code units.
\<close>

theorem sanitizeString_bounded:
  "60 \<notin> set (sanitizeString v) \<and> 62 \<notin> set (sanitizeString v)
   \<and> length (sanitizeString v) \<le> 500
   \<and> (sanitizeString v = [] \<or> \<not> is_js_whitespace (hd (sanitizeString v)))
   \<and> ((\<forall>s. v \<noteq> JStr s) \<longrightarrow> sanitizeString v = [])
   \<and> (\<forall>s. v = JStr s \<longrightarrow>
         sanitizeString v = take 500 (trim (filter (\<lambda>c. c \<noteq> 60 \<and> c \<noteq> 62) s)))
   \<and> (\<forall>s. v = JStr s \<and> length (trim (filter (\<lambda>c. c \<noteq> 60 \<and> c \<noteq> 62) s)) \<le> 500 \<longrightarrow>
         sanitizeString v = [] \<or> \<not> is_js_whitespace (last (sanitizeString v)))"
proof (cases v)
  case (JStr s)
  let ?f = "filter (\<lambda>c. c \<noteq> 60 \<and> c \<noteq> 62) s"
  have eq: "sanitizeString v = take 500 (trim ?f)"
    using JStr by (simp add: sanitizeString_def MAX_STRING_LENGTH_def)
  have sub: "set (sanitizeString v) \<subseteq> set ?f"
    using set_take_subset[of 500 "trim ?f"] set_trim[of ?f] eq by auto
  have angle: "60 \<notin> set (sanitizeString v) \<and> 62 \<notin> set (sanitizeString v)"
    using sub by auto
  have len: "length (sanitizeString v) \<le> 500" using eq by simp
  have lead: "sanitizeString v = [] \<or> \<not> is_js_whitespace (hd (sanitizeString v))"
  proof (cases "trim ?f")
    case Nil
    then show ?thesis using eq by simp
  next
    case (Cons x xs)
    then have "\<not> is_js_whitespace x" using trim_Nil_or_hd[of ?f] by simp
    then show ?thesis using eq Cons by simp
  qed
  have trail: "length (trim ?f) \<le> 500 \<longrightarrow>
      sanitizeString v = [] \<or> \<not> is_js_whitespace (last (sanitizeString v))"
    using eq trim_Nil_or_last[of ?f] by auto
  show ?thesis using JStr angle len lead eq trail by simp
qed (simp_all add: sanitizeString_def)

theorem sanitizeString_bounded_witness:
  "sanitizeString (JStr (js ''  <b>hi</b> '')) = js ''bhi/b''
   \<and> length (sanitizeString long_input) \<le> 500
   \<and> \<not> is_js_whitespace (hd (sanitizeString long_input))
   \<and> sanitizeString (JNum (Fin 7)) = []
   \<and> \<not> is_js_whitespace (last (sanitizeString (JStr (js ''  <b>hi</b> ''))))"
proof -
  let ?v = "JStr (js ''  <b>hi</b> '')"
  have t: "trim (filter (\<lambda>c. c \<noteq> 60 \<and> c \<noteq> 62) (js ''  <b>hi</b> '')) = js ''bhi/b''"
    by (simp add: js_def trim_def is_js_whitespace_def)
  have a: "sanitizeString ?v = js ''bhi/b''"
    using sanitizeString_bounded[of ?v] t by (simp add: js_def)
  have b: "length (sanitizeString long_input) \<le> 500"
    using sanitizeString_bounded[of long_input] by blast
  have c: "\<not> is_js_whitespace (hd (sanitizeString long_input))"
    using sanitizeString_bounded[of long_input] sanitize_long_input by auto
  have d: "sanitizeString (JNum (Fin 7)) = []"
    using sanitizeString_bounded[of "JNum (Fin 7)"] by simp
  have e: "\<not> is_js_whitespace (last (sanitizeString ?v))"
    using sanitizeString_bounded[of ?v] t a by (simp add: js_def is_js_whitespace_def)
  show ?thesis using a b c d e by blast
qed


text \<open>
  C5 as stated fails: the text is trimmed before it is cut, so the cut can end in white
  space. 499 letters followed by a space and a letter give 499 letters and the space.
\<close>

theorem sanitizeString_trailing_space_counterexample:
  "sanitizeString long_input \<noteq> []
   \<and> is_js_whitespace (last (sanitizeString long_input))
   \<and> trim (sanitizeString long_input) \<noteq> sanitizeString long_input"
proof -
  have l: "is_js_whitespace (last (sanitizeString long_input))"
    by (simp add: sanitize_long_input is_js_whitespace_def)
  have n: "sanitizeString long_input \<noteq> []" by (simp add: sanitize_long_input)
  have "trim (sanitizeString long_input) \<noteq> sanitizeString long_input"
    using trim_Nil_or_last[of "sanitizeString long_input"] l n by auto
  then show ?thesis using l n by simp
qed

subsection \<open>The number validator\<close>

lemma pow2_pos: "0 < pow2 e"
  by (simp add: pow2_def)




lemma ulp_exp_range: "e0 \<le> ulp_exp a e0 \<and> a < pow2 (ulp_exp a e0 + 53)"
proof (induction a e0 rule: ulp_exp.induct)
  case (1 a e)
  show ?case
  proof (cases "a < pow2 (e + 53)")
    case True
    then show ?thesis by (simp add: ulp_exp.simps[of a e])
  next
    case False
    then show ?thesis using 1[OF False] by (simp add: ulp_exp.simps[of a e])
  qed
qed

lemma ulp_exp_upper: "e0 \<le> E \<Longrightarrow> a < pow2 (E + 53) \<Longrightarrow> ulp_exp a e0 \<le> E"
proof (induction a e0 rule: ulp_exp.induct)
  case (1 a e)
  show ?case
  proof (cases "a < pow2 (e + 53)")
    case True
    then show ?thesis using 1(2) by (simp add: ulp_exp.simps[of a e])
  next
    case False
    then have "e \<noteq> E" using 1(3) by auto
    then have "e + 1 \<le> E" using 1(2) by simp
    then show ?thesis using 1(1)[OF False _ 1(3)] False by (simp add: ulp_exp.simps[of a e])
  qed
qed

lemma to_number_unfold:
  "to_number x =
     (let s = \<bar>x\<bar> / pow2 (ulp_exp \<bar>x\<bar> (- 1074));
          m = (if 1 / 2 < s - of_int \<lfloor>s\<rfloor> \<or> (s - of_int \<lfloor>s\<rfloor> = 1 / 2 \<and> odd \<lfloor>s\<rfloor>)
               then \<lfloor>s\<rfloor> + 1 else \<lfloor>s\<rfloor>);
          v = of_int m * pow2 (ulp_exp \<bar>x\<bar> (- 1074))
      in if 2 ^ 1024 \<le> v then (if x < 0 then NegInf else PosInf)
         else Fin (if x < 0 then - v else v))"
  by (simp only: to_number_def Let_def)

lemma to_number_exact:
  assumes "of_int i = \<bar>x\<bar> / pow2 (ulp_exp \<bar>x\<bar> (- 1074))"
  shows "to_number x = (if 2 ^ 1024 \<le> \<bar>x\<bar> then (if x < 0 then NegInf else PosInf) else Fin x)"
proof -
  define e where "e = ulp_exp \<bar>x\<bar> (- 1074)"
  define s where "s = \<bar>x\<bar> / pow2 e"
  have s: "s = of_int i" using assms by (simp only: s_def e_def)
  have q: "\<lfloor>s\<rfloor> = i" unfolding s by (rule floor_of_int)
  have f: "s - of_int \<lfloor>s\<rfloor> = 0" unfolding q s by simp
  have m: "(if 1 / 2 < s - of_int \<lfloor>s\<rfloor> \<or> (s - of_int \<lfloor>s\<rfloor> = 1 / 2 \<and> odd \<lfloor>s\<rfloor>)
               then \<lfloor>s\<rfloor> + 1 else \<lfloor>s\<rfloor>) = i"
    unfolding f by (simp add: q)
  have "pow2 e \<noteq> 0" using pow2_pos[of e] by simp
  then have v: "of_int i * pow2 e = \<bar>x\<bar>" unfolding s[symmetric] s_def by simp
  have "to_number x = (if 2 ^ 1024 \<le> \<bar>x\<bar> then (if x < 0 then NegInf else PosInf)
         else Fin (if x < 0 then - \<bar>x\<bar> else \<bar>x\<bar>))"
    unfolding to_number_unfold e_def[symmetric] s_def[symmetric] Let_def m v by (rule refl)
  also have "(if x < 0 then - \<bar>x\<bar> else \<bar>x\<bar>) = x" by simp
  finally show ?thesis .
qed


text \<open>An integer is kept as it is below \<open>2^53\<close>, and becomes an integer or an infinity.\<close>

lemma to_number_int_low:
  fixes k :: int
  assumes "ulp_exp \<bar>of_int k\<bar> (- 1074) \<le> 0"
  shows "to_number (of_int k) =
           (if 2 ^ 1024 \<le> \<bar>k\<bar> then (if k < 0 then NegInf else PosInf) else Fin (of_int k))"
proof -
  define x :: rat where "x = of_int k"
  define e where "e = ulp_exp \<bar>x\<bar> (- 1074)"
  have le: "e \<le> 0" using assms by (simp only: e_def x_def)
  have ax: "\<bar>x\<bar> = of_int \<bar>k\<bar>" by (simp add: x_def)
  have p: "pow2 e = 1 / 2 ^ nat (- e)" using le by (cases "e = 0") (simp_all add: pow2_def)
  have "of_int (\<bar>k\<bar> * 2 ^ nat (- e)) = \<bar>x\<bar> / pow2 e" unfolding ax p by simp
  then have "to_number x = (if 2 ^ 1024 \<le> \<bar>x\<bar> then (if x < 0 then NegInf else PosInf) else Fin x)"
    unfolding e_def by (rule to_number_exact)
  moreover have "((2::rat) ^ 1024 \<le> \<bar>x\<bar>) = (2 ^ 1024 \<le> \<bar>k\<bar>)"
    unfolding ax by (metis of_int_le_iff of_int_numeral of_int_power)
  moreover have "(x < 0) = (k < 0)" by (simp add: x_def)
  ultimately show ?thesis by (simp only: x_def)
qed

lemma to_number_int_small:
  assumes "\<bar>k\<bar> < 2 ^ 53"
  shows "to_number (of_int k) = Fin (of_int k)"
proof -
  have "(of_int \<bar>k\<bar> :: rat) < of_int (2 ^ 53)" using assms by (simp only: of_int_less_iff)
  then have "\<bar>of_int k :: rat\<bar> < pow2 (0 + 53)" by (simp add: pow2_def)
  then have e: "ulp_exp \<bar>of_int k\<bar> (- 1074) \<le> 0" by (intro ulp_exp_upper) simp_all
  have "(2::int) ^ 53 \<le> 2 ^ 1024" by (rule power_increasing) simp_all
  then have "\<not> 2 ^ 1024 \<le> \<bar>k\<bar>" using assms by linarith
  then show ?thesis using to_number_int_low[OF e] by simp
qed



lemma to_double_small: "\<bar>k\<bar> < 2 ^ 53 \<Longrightarrow> to_double k = Fin (of_int k)"
  unfolding to_double_def by (rule to_number_int_small)



















subsection \<open>The handler's responses\<close>

lemma handler_options:
  "req_method req = js ''OPTIONS'' \<Longrightarrow>
   handler nts gateway now req m = (\<lparr>status = 200, headers = corsHeaders, body = None\<rparr>, m)"
  by (simp add: handler_def)

lemma handler_denied:
  "req_method req \<noteq> js ''OPTIONS'' \<Longrightarrow>
   \<not> allowed (fst (checkRateLimit now (getRateLimitKey req) m)) \<Longrightarrow>
   handler nts gateway now req m =
     (error_response 429 ''Rate limit exceeded. Please try again later.''
        (json_headers @ [(''Retry-After'', ''3600'')]),
      snd (checkRateLimit now (getRateLimitKey req) m))"
  by (simp add: handler_def Let_def)

lemma handler_allowed:
  "req_method req \<noteq> js ''OPTIONS'' \<Longrightarrow>
   allowed (fst (checkRateLimit now (getRateLimitKey req) m)) \<Longrightarrow>
   handler nts gateway now req m =
     (case try_block nts gateway req of Inr r \<Rightarrow> r | Inl e \<Rightarrow> unexpected_error,
      snd (checkRateLimit now (getRateLimitKey req) m))"
  by (simp add: handler_def Let_def unexpected_error_def split: sum.splits)

lemma try_block_oversized:
  "req_headers req (js ''content-length'') = Some cl \<Longrightarrow> js_gt (parseInt cl) MAX_REQUEST_SIZE \<Longrightarrow>
   try_block nts gateway req = Inr (error_response 413 ''Request too large'' json_headers)"
proof -
  assume h: "req_headers req (js ''content-length'') = Some cl" "js_gt (parseInt cl) MAX_REQUEST_SIZE"
  have "parseInt [] = NaN" by (simp add: parseInt_def)
  then have "cl \<noteq> []" using h by (auto simp: js_gt_def MAX_REQUEST_SIZE_def)
  then show ?thesis using h by (simp add: try_block_def)
qed

lemma try_block_reaches:
  "reaches_gateway nts now req m p \<Longrightarrow> try_block nts gateway req = after_fetch (gateway p)"
  by (auto simp: reaches_gateway_def try_block_def bind_exn_def split: option.splits)

lemma parse_response_cases:
  "parse_response c = Inr r \<Longrightarrow>
   (\<exists>pd. r = ok_response pd)
   \<or> r = error_response 500 ''Failed to process response. Please try again.'' json_headers
   \<or> r = error_response 500 ''Failed to generate ideas. Please try again.'' json_headers"
  by (auto simp: parse_response_def split: sum.splits jsval.splits option.splits)

lemma after_fetch_cases:
  "after_fetch outcome = Inr r \<Longrightarrow>
   (\<exists>g. r = gateway_error g \<and> outcome = FetchResolves g \<and> \<not> response_ok g)
   \<or> (\<exists>c. parse_response c = Inr r)"
  by (auto simp: after_fetch_def bind_exn_def split: fetch_outcome.splits if_splits option.splits sum.splits)

lemma try_block_cases:
  "try_block nts gateway req = Inr r \<Longrightarrow>
   r = error_response 413 ''Request too large'' json_headers
   \<or> r = error_response 400 ''Missing required fields: domain, audience, difficulty, mode'' json_headers
   \<or> r = error_response 400 ''Invalid difficulty level'' json_headers
   \<or> r = error_response 400 ''Invalid mode'' json_headers
   \<or> (\<exists>p. after_fetch (gateway p) = Inr r)"
  by (auto simp: try_block_def bind_exn_def Let_def split: if_splits option.splits sum.splits)

lemma try_block_headers: "try_block nts gateway req = Inr r \<Longrightarrow> headers r = json_headers"
  by (auto dest!: try_block_cases after_fetch_cases parse_response_cases
      simp: error_response_def ok_response_def gateway_error_def)

lemma try_block_status:
  "try_block nts gateway req = Inr r \<Longrightarrow> status r \<in> {200, 400, 402, 413, 429, 500}"
  by (auto dest!: try_block_cases after_fetch_cases parse_response_cases
      simp: error_response_def ok_response_def gateway_error_def split: if_splits)

lemma try_block_429:
  "try_block nts gateway req = Inr r \<Longrightarrow> status r = 429 \<Longrightarrow>
   r = error_response 429 ''Rate limit exceeded. Please try again in a moment.'' json_headers"
  by (auto dest!: try_block_cases after_fetch_cases parse_response_cases
      simp: error_response_def ok_response_def gateway_error_def split: if_splits)


lemma key_of_good_post: "getRateLimitKey good_post = caller"
  by (simp add: getRateLimitKey_def good_post_def post_from_caller_def caller_def js_def trim_def
      is_js_whitespace_def)

lemma key_of_big_post: "getRateLimitKey big_post = caller"
  by (simp add: getRateLimitKey_def big_post_def caller_def js_def trim_def
      is_js_whitespace_def)

lemma method_of_good_post: "req_method good_post \<noteq> js ''OPTIONS''"
  by (simp add: good_post_def post_from_caller_def js_def)

lemma method_of_big_post: "req_method big_post \<noteq> js ''OPTIONS''"
  by (simp add: big_post_def js_def)

lemma parseInt_undefined: "parseInt (js ''undefined'') = NaN"
  by (simp add: parseInt_def js_def is_js_whitespace_def is_digit_def)

lemma read_good_body: "read_inputs nts good_body = Inr good_params"
proof -
  have s: "sanitizeString (JStr (js ''fitness'')) = js ''fitness''"
    "sanitizeString (JStr (js ''students'')) = js ''students''"
    "sanitizeString (JStr (js ''Beginner'')) = js ''Beginner''"
    "sanitizeString (JStr (js ''hackathon'')) = js ''hackathon''"
    "sanitizeString JUndefined = []"
    by (simp_all add: sanitizeString_def MAX_STRING_LENGTH_def trim_def js_def
        is_js_whitespace_def)
  have v: "validateNumber nts JUndefined lo hi d = Inr d" for lo hi d
    by (simp add: validateNumber_def parseInt_undefined isNaN_def bind_exn_def)
  have g: "get_prop good_body (js ''domain'') = Inr (JStr (js ''fitness''))"
    "get_prop good_body (js ''audience'') = Inr (JStr (js ''students''))"
    "get_prop good_body (js ''difficulty'') = Inr (JStr (js ''Beginner''))"
    "get_prop good_body (js ''mode'') = Inr (JStr (js ''hackathon''))"
    "get_prop good_body (js ''skills'') = Inr JUndefined"
    "get_prop good_body (js ''constraints'') = Inr JUndefined"
    "get_prop good_body (js ''time_available_days'') = Inr JUndefined"
    "get_prop good_body (js ''multi_idea_count'') = Inr JUndefined"
    by (simp_all add: good_body_def js_def)
  show ?thesis
    by (simp add: read_inputs_def bind_exn_def g s v good_params_def)
qed

lemma good_post_reaches:
  "reaches_gateway nts now good_post Map.empty good_params"
proof -
  have a: "allowed (fst (checkRateLimit now caller Map.empty))"
    by (simp add: checkRateLimit_def)
  have h: "req_headers good_post (js ''content-length'') = None"
    by (simp add: good_post_def post_from_caller_def js_def)
  have j: "req_json good_post = Some good_body" by (simp add: good_post_def)
  have d: "toLowerCase (difficulty good_params) \<in> set VALID_DIFFICULTIES"
    by (simp add: good_params_def toLowerCase_def VALID_DIFFICULTIES_def js_def)
  have m: "toLowerCase (mode good_params) \<in> set VALID_MODES"
    by (simp add: good_params_def toLowerCase_def VALID_MODES_def js_def)
  have f: "domain good_params \<noteq> [] \<and> audience good_params \<noteq> []
      \<and> difficulty good_params \<noteq> [] \<and> mode good_params \<noteq> []"
    by (simp add: good_params_def js_def)
  show ?thesis
    unfolding reaches_gateway_def
    using method_of_good_post a h j d m f by (simp add: key_of_good_post read_good_body)
qed


lemma checkRateLimit_consumes:
  assumes "allowed (fst (checkRateLimit now key m))"
  shows "snd (checkRateLimit now key m) key \<noteq> m key"
proof (cases "m key")
  case None
  then show ?thesis by (simp add: checkRateLimit_def)
next
  case (Some r)
  show ?thesis
  proof (cases "resetTime r < now")
    case True
    then have "snd (checkRateLimit now key m) key
        = Some \<lparr>count = 1, resetTime = now + RATE_LIMIT_WINDOW_MS\<rparr>"
      using Some by (simp add: checkRateLimit_def)
    moreover have "resetTime r \<noteq> now + RATE_LIMIT_WINDOW_MS"
      using True by (simp add: RATE_LIMIT_WINDOW_MS_def)
    ultimately show ?thesis using Some by auto
  next
    case False
    then have "snd (checkRateLimit now key m) key = Some (r\<lparr>count := count r + 1\<rparr>)"
      using Some assms by (auto simp: checkRateLimit_def split: if_splits)
    moreover have "count (r\<lparr>count := count r + 1\<rparr>) \<noteq> count r" by simp
    ultimately show ?thesis using Some by (metis option.inject)
  qed
qed

text \<open>
  C9. Every response of the handler, whatever the request, the clock, the rate-limit
  map and the gateway do, carries the CORS headers, \<^verbatim>\<open>Access-Control-Allow-Origin: *\<close>
  among them; its status is one of 200, 400, 402, 413, 429 and 500.
\<close>

theorem every_response_has_cors:
  "set corsHeaders \<subseteq> set (headers (fst (handler nts gateway now req m)))
   \<and> (''Access-Control-Allow-Origin'', ''*'') \<in> set (headers (fst (handler nts gateway now req m)))
   \<and> status (fst (handler nts gateway now req m)) \<in> {200, 400, 402, 413, 429, 500}"
proof -
  let ?r = "fst (handler nts gateway now req m)"
  have origin: "(''Access-Control-Allow-Origin'', ''*'') \<in> set corsHeaders"
    by (simp add: corsHeaders_def)
  have "set corsHeaders \<subseteq> set (headers ?r) \<and> status ?r \<in> {200, 400, 402, 413, 429, 500}"
  proof (cases "req_method req = js ''OPTIONS''")
    case True
    then show ?thesis by (simp add: handler_options)
  next
    case False
    show ?thesis
    proof (cases "allowed (fst (checkRateLimit now (getRateLimitKey req) m))")
      case denied: False
      then show ?thesis using False
        by (auto simp: handler_denied error_response_def json_headers_def)
    next
      case True
      show ?thesis
      proof (cases "try_block nts gateway req")
        case (Inl e)
        then show ?thesis using False True
          by (auto simp: handler_allowed unexpected_error_def error_response_def json_headers_def)
      next
        case (Inr r)
        then have "headers r = json_headers" "status r \<in> {200, 400, 402, 413, 429, 500}"
          using try_block_headers try_block_status by blast+
        then show ?thesis using False True Inr
          by (auto simp: handler_allowed json_headers_def)
      qed
    qed
  qed
  then show ?thesis using origin by blast
qed

theorem every_response_has_cors_witness:
  "(''Access-Control-Allow-Origin'', ''*'')
     \<in> set (headers (fst (handler (\<lambda>n. []) (gateway_status 503) 5000 good_post Map.empty)))
   \<and> (''Access-Control-Allow-Origin'', ''*'')
     \<in> set (headers (fst (handler (\<lambda>n. []) (gateway_status 503) 5000 preflight full_map)))"
  using every_response_has_cors[of "\<lambda>n. []" "gateway_status 503" 5000 good_post Map.empty]
    every_response_has_cors[of "\<lambda>n. []" "gateway_status 503" 5000 preflight full_map]
  by blast

text \<open>
  C10. An OPTIONS request is answered with an empty body before the rate-limit check:
  the rate-limit map after the request is the map before it.
\<close>

theorem preflight_keeps_rate_map:
  "req_method req = js ''OPTIONS'' \<longrightarrow>
     fst (handler nts gateway now req m) = \<lparr>status = 200, headers = corsHeaders, body = None\<rparr>
     \<and> snd (handler nts gateway now req m) = m"
  by (simp add: handler_options)

theorem preflight_keeps_rate_map_witness:
  "body (fst (handler (\<lambda>n. []) (gateway_status 503) 5000 preflight full_map)) = None
   \<and> snd (handler (\<lambda>n. []) (gateway_status 503) 5000 preflight full_map) = full_map"
proof -
  have "req_method preflight = js ''OPTIONS''" by (simp add: preflight_def)
  then show ?thesis
    using preflight_keeps_rate_map[of preflight "\<lambda>n. []" "gateway_status 503" 5000 full_map]
    by simp
qed

text \<open>
  C2, as the code has it. The rate-limit check runs before the size check. A request
  that is not OPTIONS and declares a content-length above 10000 leaves the map as
  \<^verbatim>\<open>checkRateLimit\<close> leaves it: when the caller is allowed the answer is 413 and the
  caller's record has changed (a slot is consumed); when the caller is over the limit the
  answer is 429 and the map is unchanged.
\<close>

theorem oversized_request_is_rate_checked_first:
  "req_method req \<noteq> js ''OPTIONS''
   \<and> req_headers req (js ''content-length'') = Some cl
   \<and> js_gt (parseInt cl) (Fin 10000) \<longrightarrow>
     snd (handler nts gateway now req m) = snd (checkRateLimit now (getRateLimitKey req) m)
     \<and> (allowed (fst (checkRateLimit now (getRateLimitKey req) m)) \<longrightarrow>
          fst (handler nts gateway now req m)
            = error_response 413 ''Request too large'' json_headers
          \<and> snd (handler nts gateway now req m) (getRateLimitKey req) \<noteq> m (getRateLimitKey req))
     \<and> (\<not> allowed (fst (checkRateLimit now (getRateLimitKey req) m)) \<longrightarrow>
          status (fst (handler nts gateway now req m)) = 429
          \<and> snd (handler nts gateway now req m) = m)"
proof
  assume h: "req_method req \<noteq> js ''OPTIONS''
   \<and> req_headers req (js ''content-length'') = Some cl
   \<and> js_gt (parseInt cl) (Fin 10000)"
  let ?rc = "checkRateLimit now (getRateLimitKey req) m"
  have t: "try_block nts gateway req = Inr (error_response 413 ''Request too large'' json_headers)"
    using h try_block_oversized[of req cl nts gateway] by (simp add: MAX_REQUEST_SIZE_def)
  have yes: "allowed (fst ?rc) \<longrightarrow>
          fst (handler nts gateway now req m)
            = error_response 413 ''Request too large'' json_headers
          \<and> snd (handler nts gateway now req m) = snd ?rc
          \<and> snd (handler nts gateway now req m) (getRateLimitKey req) \<noteq> m (getRateLimitKey req)"
    using h t checkRateLimit_consumes[of now "getRateLimitKey req" m]
    by (simp add: handler_allowed)
  have unchanged: "\<not> allowed (fst ?rc) \<Longrightarrow> snd ?rc = m"
    by (auto simp: checkRateLimit_def split: option.splits if_splits)
  have no: "\<not> allowed (fst ?rc) \<longrightarrow>
          status (fst (handler nts gateway now req m)) = 429
          \<and> snd (handler nts gateway now req m) = snd ?rc
          \<and> snd (handler nts gateway now req m) = m"
    using h unchanged by (simp add: handler_denied error_response_def)
  show "snd (handler nts gateway now req m) = snd ?rc
     \<and> (allowed (fst ?rc) \<longrightarrow>
          fst (handler nts gateway now req m)
            = error_response 413 ''Request too large'' json_headers
          \<and> snd (handler nts gateway now req m) (getRateLimitKey req) \<noteq> m (getRateLimitKey req))
     \<and> (\<not> allowed (fst ?rc) \<longrightarrow>
          status (fst (handler nts gateway now req m)) = 429
          \<and> snd (handler nts gateway now req m) = m)"
    using yes no by blast
qed

lemma big_post_oversized:
  "req_headers big_post (js ''content-length'') = Some (js ''10001'')
   \<and> js_gt (parseInt (js ''10001'')) (Fin 10000)"
  by (simp add: big_post_def js_def parseInt_def is_js_whitespace_def is_digit_def
      digits_value_def js_gt_def to_double_small)

theorem oversized_request_is_rate_checked_first_witness:
  "fst (handler (\<lambda>n. []) (gateway_status 503) 5000 big_post Map.empty)
     = error_response 413 ''Request too large'' json_headers
   \<and> snd (handler (\<lambda>n. []) (gateway_status 503) 5000 big_post Map.empty)
       = snd (checkRateLimit 5000 caller Map.empty)
   \<and> status (fst (handler (\<lambda>n. []) (gateway_status 503) 5000 big_post full_map)) = 429"
proof -
  have a: "allowed (fst (checkRateLimit 5000 (getRateLimitKey big_post) Map.empty))"
    by (simp add: checkRateLimit_def)
  have d: "\<not> allowed (fst (checkRateLimit 5000 (getRateLimitKey big_post) full_map))"
    by (simp add: key_of_big_post full_map_def checkRateLimit_def RATE_LIMIT_MAX_def)
  note fresh = oversized_request_is_rate_checked_first
    [of big_post "js ''10001''" "\<lambda>n. []" "gateway_status 503" 5000 Map.empty]
  note full = oversized_request_is_rate_checked_first
    [of big_post "js ''10001''" "\<lambda>n. []" "gateway_status 503" 5000 full_map]
  have "fst (handler (\<lambda>n. []) (gateway_status 503) 5000 big_post Map.empty)
     = error_response 413 ''Request too large'' json_headers
   \<and> snd (handler (\<lambda>n. []) (gateway_status 503) 5000 big_post Map.empty)
       = snd (checkRateLimit 5000 (getRateLimitKey big_post) Map.empty)"
    using fresh a method_of_big_post big_post_oversized by blast
  moreover have "status (fst (handler (\<lambda>n. []) (gateway_status 503) 5000 big_post full_map)) = 429"
    using full d method_of_big_post big_post_oversized by blast
  ultimately show ?thesis by (simp add: key_of_big_post)
qed

text \<open>
  C2 as stated fails: an oversized request of a new caller is answered 413 and leaves a
  record with count 1 for the caller; the same request of a caller over the limit is
  answered 429, not 413.
\<close>

theorem oversized_request_consumes_slot_counterexample:
  "status (fst (handler (\<lambda>n. []) (gateway_status 503) 5000 big_post Map.empty)) = 413
   \<and> Map.empty caller = None
   \<and> snd (handler (\<lambda>n. []) (gateway_status 503) 5000 big_post Map.empty) caller
       = Some \<lparr>count = 1, resetTime = 3605000\<rparr>
   \<and> status (fst (handler (\<lambda>n. []) (gateway_status 503) 5000 big_post full_map)) \<noteq> 413"
proof -
  have t: "try_block (\<lambda>n. []) (gateway_status 503) big_post
      = Inr (error_response 413 ''Request too large'' json_headers)"
    using try_block_oversized[of big_post "js ''10001''"] big_post_oversized
    by (simp add: MAX_REQUEST_SIZE_def)
  have c: "checkRateLimit 5000 caller Map.empty
      = (\<lparr>allowed = True, remaining = 19\<rparr>, [caller \<mapsto> \<lparr>count = 1, resetTime = 3605000\<rparr>])"
    by (simp add: checkRateLimit_def RATE_LIMIT_MAX_def RATE_LIMIT_WINDOW_MS_def)
  have h: "handler (\<lambda>n. []) (gateway_status 503) 5000 big_post Map.empty
      = (error_response 413 ''Request too large'' json_headers,
         [caller \<mapsto> \<lparr>count = 1, resetTime = 3605000\<rparr>])"
    using method_of_big_post by (simp add: handler_allowed key_of_big_post c t)
  have d: "checkRateLimit 5000 caller full_map = (\<lparr>allowed = False, remaining = 0\<rparr>, full_map)"
    by (simp add: full_map_def checkRateLimit_def RATE_LIMIT_MAX_def)
  have f: "status (fst (handler (\<lambda>n. []) (gateway_status 503) 5000 big_post full_map)) = 429"
    using method_of_big_post by (simp add: handler_denied key_of_big_post d error_response_def)
  show ?thesis using h f by (simp add: error_response_def)
qed


lemma handler_reaches:
  "reaches_gateway nts now req m p \<Longrightarrow>
   fst (handler nts gateway now req m) =
     (case after_fetch (gateway p) of Inr r \<Rightarrow> r | Inl e \<Rightarrow> unexpected_error)"
proof -
  assume r: "reaches_gateway nts now req m p"
  then have "req_method req \<noteq> js ''OPTIONS''"
    "allowed (fst (checkRateLimit now (getRateLimitKey req) m))"
    by (simp_all add: reaches_gateway_def)
  then show ?thesis using try_block_reaches[OF r, of gateway] by (simp add: handler_allowed)
qed

lemma no_retry_after_in_json_headers: "''Retry-After'' \<notin> fst ` set json_headers"
  by (simp add: json_headers_def corsHeaders_def)

text \<open>
  C4, as the code has it. The 429 of the local rate limiter carries
  \<^verbatim>\<open>Retry-After: 3600\<close>. Every other 429 of the handler is the one mapped from a gateway
  status 429: it has the message "try again in a moment", the CORS and content-type
  headers, and no \<^verbatim>\<open>Retry-After\<close> header.
\<close>

theorem retry_after_only_on_local_429:
  "(req_method req \<noteq> js ''OPTIONS''
      \<and> \<not> allowed (fst (checkRateLimit now (getRateLimitKey req) m)) \<longrightarrow>
      fst (handler nts gateway now req m) =
        error_response 429 ''Rate limit exceeded. Please try again later.''
          (json_headers @ [(''Retry-After'', ''3600'')]))
   \<and> (status (fst (handler nts gateway now req m)) = 429 \<longrightarrow>
        req_method req \<noteq> js ''OPTIONS''
        \<and> (if allowed (fst (checkRateLimit now (getRateLimitKey req) m))
            then fst (handler nts gateway now req m) =
                   error_response 429 ''Rate limit exceeded. Please try again in a moment.''
                     json_headers
                 \<and> ''Retry-After'' \<notin> fst ` set (headers (fst (handler nts gateway now req m)))
            else (''Retry-After'', ''3600'')
                   \<in> set (headers (fst (handler nts gateway now req m)))))
   \<and> (reaches_gateway nts now req m p \<and> gateway p = FetchResolves g
        \<and> gw_status g = 429 \<and> gw_text g \<noteq> None \<longrightarrow>
        fst (handler nts gateway now req m) =
          error_response 429 ''Rate limit exceeded. Please try again in a moment.'' json_headers)"
proof -
  let ?h = "fst (handler nts gateway now req m)"
  let ?ok = "allowed (fst (checkRateLimit now (getRateLimitKey req) m))"
  have local: "req_method req \<noteq> js ''OPTIONS'' \<and> \<not> ?ok \<longrightarrow>
      ?h = error_response 429 ''Rate limit exceeded. Please try again later.''
          (json_headers @ [(''Retry-After'', ''3600'')])"
    by (simp add: handler_denied)
  have any: "status ?h = 429 \<longrightarrow>
        req_method req \<noteq> js ''OPTIONS''
        \<and> (if ?ok
            then ?h = error_response 429 ''Rate limit exceeded. Please try again in a moment.''
                     json_headers
                 \<and> ''Retry-After'' \<notin> fst ` set (headers ?h)
            else (''Retry-After'', ''3600'') \<in> set (headers ?h))"
  proof
    assume s: "status ?h = 429"
    have m: "req_method req \<noteq> js ''OPTIONS''"
      using s handler_options[of req nts gateway now m] by auto
    show "req_method req \<noteq> js ''OPTIONS''
        \<and> (if ?ok
            then ?h = error_response 429 ''Rate limit exceeded. Please try again in a moment.''
                     json_headers
                 \<and> ''Retry-After'' \<notin> fst ` set (headers ?h)
            else (''Retry-After'', ''3600'') \<in> set (headers ?h))"
    proof (cases ?ok)
      case False
      then show ?thesis using m by (simp add: handler_denied error_response_def)
    next
      case True
      show ?thesis
      proof (cases "try_block nts gateway req")
        case (Inl e)
        then have "status ?h = 500" using m True
          by (simp add: handler_allowed unexpected_error_def error_response_def)
        then show ?thesis using s by simp
      next
        case (Inr r)
        then have hr: "?h = r" using m True by (simp add: handler_allowed)
        then have "r = error_response 429 ''Rate limit exceeded. Please try again in a moment.''
            json_headers"
          using try_block_429[OF Inr] s by simp
        then show ?thesis using hr m True no_retry_after_in_json_headers
          by (simp add: error_response_def)
      qed
    qed
  qed
  have gw: "reaches_gateway nts now req m p \<and> gateway p = FetchResolves g
        \<and> gw_status g = 429 \<and> gw_text g \<noteq> None \<longrightarrow>
        ?h = error_response 429 ''Rate limit exceeded. Please try again in a moment.'' json_headers"
    by (auto simp: handler_reaches after_fetch_def response_ok_def gateway_error_def)
  show ?thesis using local any gw by blast
qed

lemma good_post_gateway_status:
  "\<not> (200 \<le> st \<and> st \<le> 299) \<Longrightarrow>
   fst (handler nts (gateway_status st) now good_post Map.empty) =
     gateway_error \<lparr>gw_status = st, gw_text = Some [], gw_json = None\<rparr>"
  using handler_reaches[OF good_post_reaches, where gateway = "gateway_status st"]
  by (simp add: gateway_status_def after_fetch_def response_ok_def)

theorem retry_after_only_on_local_429_witness:
  "fst (handler (\<lambda>n. []) (gateway_status 503) 5000 good_post full_map) =
        error_response 429 ''Rate limit exceeded. Please try again later.''
          (json_headers @ [(''Retry-After'', ''3600'')])
   \<and> fst (handler (\<lambda>n. []) (gateway_status 429) 5000 good_post Map.empty) =
        error_response 429 ''Rate limit exceeded. Please try again in a moment.'' json_headers"
proof -
  have d: "\<not> allowed (fst (checkRateLimit 5000 (getRateLimitKey good_post) full_map))"
    by (simp add: key_of_good_post full_map_def checkRateLimit_def RATE_LIMIT_MAX_def)
  have a: "fst (handler (\<lambda>n. []) (gateway_status 503) 5000 good_post full_map) =
        error_response 429 ''Rate limit exceeded. Please try again later.''
          (json_headers @ [(''Retry-After'', ''3600'')])"
    using retry_after_only_on_local_429
      [where req = good_post and now = 5000 and m = full_map and nts = "\<lambda>n. []"
         and gateway = "gateway_status 503"]
      d method_of_good_post by blast
  have g: "gateway_status 429 good_params
      = FetchResolves \<lparr>gw_status = 429, gw_text = Some [], gw_json = None\<rparr>"
    by (simp add: gateway_status_def)
  have b: "fst (handler (\<lambda>n. []) (gateway_status 429) 5000 good_post Map.empty) =
        error_response 429 ''Rate limit exceeded. Please try again in a moment.'' json_headers"
    using retry_after_only_on_local_429
      [where req = good_post and now = 5000 and m = Map.empty and nts = "\<lambda>n. []"
         and gateway = "gateway_status 429" and p = good_params
         and g = "\<lparr>gw_status = 429, gw_text = Some [], gw_json = None\<rparr>"]
      good_post_reaches[of "\<lambda>n. []" 5000] g by simp
  show ?thesis using a b by blast
qed

text \<open>
  C4 as stated fails: a valid request whose gateway call returns status 429 is answered
  429 without a \<^verbatim>\<open>Retry-After\<close> header.
\<close>

theorem gateway_429_lacks_retry_after_counterexample:
  "status (fst (handler (\<lambda>n. []) (gateway_status 429) 5000 good_post Map.empty)) = 429
   \<and> (''Retry-After'', ''3600'')
       \<notin> set (headers (fst (handler (\<lambda>n. []) (gateway_status 429) 5000 good_post Map.empty)))
   \<and> ''Retry-After''
       \<notin> fst ` set (headers (fst (handler (\<lambda>n. []) (gateway_status 429) 5000 good_post Map.empty)))"
proof -
  have "fst (handler (\<lambda>n. []) (gateway_status 429) 5000 good_post Map.empty) =
      error_response 429 ''Rate limit exceeded. Please try again in a moment.'' json_headers"
    using good_post_gateway_status[where st = 429 and nts = "\<lambda>n. []" and now = 5000]
    by (simp add: gateway_error_def)
  then show ?thesis
    by (simp add: error_response_def json_headers_def corsHeaders_def)
qed





lemma clean_error_reply: "cleanContent error_reply = error_reply"
  by (simp add: error_reply_def cleanContent_def js_def trim_def is_js_whitespace_def)

lemma parse_error_reply: "JSON_parse error_reply = Some error_object"
  by (simp add: error_reply_def error_object_def JSON_parse_def js_def skip_ws_def
      is_json_ws_def escape_char_def)

lemma brace_match_error_reply: "brace_match error_reply = Some error_reply"
  by (simp add: error_reply_def brace_match_def js_def)

lemma error_object_has_no_ideas: "get_prop error_object (js ''ideas'') = Inr JUndefined"
  by (simp add: error_object_def js_def)

lemma direct_parse_error_reply: "direct_parse (JStr error_reply) = Inl Error"
  by (simp add: direct_parse_def clean_error_reply parse_error_reply bind_exn_def
      error_object_has_no_ideas)

lemma parse_response_error_reply:
  "parse_response (JStr error_reply) = Inr (ok_response error_object)"
  by (simp add: parse_response_def direct_parse_error_reply brace_match_error_reply
      parse_error_reply)

lemma reply_content_gateway_reply:
  "after_fetch (gateway_reply c p) = parse_response (JStr c)"
  by (simp add: gateway_reply_def after_fetch_def response_ok_def reply_content_def bind_exn_def
      js_def array_index_def is_digit_def digits_value_def)

text \<open>
  What the recovery does: when neither the cleaned text nor the brace match parses, the
  answer is 500; when the inner \<^verbatim>\<open>try\<close> throws for any reason, the missing
  \<^verbatim>\<open>ideas\<close> array included, and the brace match parses, the parsed value is returned.
\<close>

lemma unparseable_reply_is_rejected:
  assumes "JSON_parse (cleanContent s) = None"
    and "brace_match s = None \<or> (\<exists>m. brace_match s = Some m \<and> JSON_parse m = None)"
  shows "\<exists>r. parse_response (JStr s) = Inr r \<and> status r = 500"
proof -
  have "direct_parse (JStr s) = Inl SyntaxError"
    using assms(1) by (simp add: direct_parse_def)
  then show ?thesis using assms(2)
    by (auto simp: parse_response_def error_response_def)
qed

lemma fallback_skips_structure_check:
  assumes "direct_parse (JStr s) = Inl e" "brace_match s = Some m" "JSON_parse m = Some pd"
  shows "parse_response (JStr s) = Inr (ok_response pd)"
  using assms by (simp add: parse_response_def)

text \<open>
  C1 fails on the code. The structure check throws inside the inner \<^verbatim>\<open>try\<close>, so its
  own \<^verbatim>\<open>catch\<close> runs the brace-extraction fallback, and what the fallback parses is
  returned without the check. The reply \<^verbatim>\<open>{"error": "could not produce json"}\<close>, which
  the system prompt asks the model for, parses to an object without \<^verbatim>\<open>ideas\<close> and is
  answered with status 200 and that object.
\<close>

theorem reply_without_ideas_is_returned:
  "fst (handler (\<lambda>n. []) (gateway_reply error_reply) 5000 good_post Map.empty)
     = \<lparr>status = 200, headers = json_headers, body = Some error_object\<rparr>
   \<and> get_prop error_object (js ''ideas'') = Inr JUndefined
   \<and> JSON_parse (cleanContent error_reply) = Some error_object"
  using handler_reaches[OF good_post_reaches, where gateway = "gateway_reply error_reply"]
  by (simp add: reply_content_gateway_reply parse_response_error_reply ok_response_def
      error_object_has_no_ideas clean_error_reply parse_error_reply)

subsection \<open>Fence stripping\<close>

lemma replace_fence_skip:
  "pat \<noteq> [] \<Longrightarrow> hd pat \<notin> set pre \<Longrightarrow> replace_fence pat (pre @ xs) = pre @ replace_fence pat xs"
proof (induction pre)
  case Nil
  then show ?case by simp
next
  case (Cons c pre)
  then have "\<not> prefix pat (c # pre @ xs)"
    by (cases pat) auto
  then show ?case using Cons by simp
qed

lemma replace_fence_head:
  "pat \<noteq> [] \<Longrightarrow> replace_fence pat (pat @ 10 # xs) = replace_fence pat xs"
  by (cases pat) (simp_all add: Let_def)

lemma prefix_append_newline:
  assumes "10 \<notin> set pat" "prefix pat (xs @ 10 # ys)"
  shows "prefix pat xs"
proof (rule ccontr)
  assume n: "\<not> prefix pat xs"
  from assms(2) obtain zs where z: "xs @ 10 # ys = pat @ zs" by (auto simp: prefix_def)
  have "length xs < length pat"
  proof (rule ccontr)
    assume "\<not> length xs < length pat"
    then have "take (length pat) xs = pat"
      using z by (metis append_eq_conv_conj leI take_append take_all_iff append_Nil2 diff_is_0_eq' take_0)
    then have "prefix pat xs" by (metis take_is_prefix)
    then show False using n by simp
  qed
  then have "pat ! length xs = 10"
    using z by (metis nth_append nth_append_length)
  then have "10 \<in> set pat" using \<open>length xs < length pat\<close> by (metis nth_mem)
  then show False using assms(1) by simp
qed

lemma replace_fence_unfold:
  "xs \<noteq> [] \<Longrightarrow> pat \<noteq> [] \<Longrightarrow>
   replace_fence pat xs =
     (if prefix pat xs
      then replace_fence pat
             (if drop (length pat) xs \<noteq> [] \<and> hd (drop (length pat) xs) = 10
              then tl (drop (length pat) xs) else drop (length pat) xs)
      else hd xs # replace_fence pat (tl xs))"
  by (cases xs) (simp_all add: Let_def del: drop_Suc_Cons)

lemma replace_fence_before_newline:
  "pat \<noteq> [] \<Longrightarrow> 10 \<notin> set pat \<Longrightarrow>
   replace_fence pat (xs @ 10 # ys) = replace_fence pat xs @ 10 # replace_fence pat ys
   \<or> replace_fence pat (xs @ 10 # ys) = replace_fence pat xs @ replace_fence pat ys"
proof (induction "length xs" arbitrary: xs rule: less_induct)
  case less
  note pat = less.prems
  show ?case
  proof (cases "xs = []")
    case True
    have "\<not> prefix pat (10 # ys)" using pat by (cases pat) auto
    then show ?thesis using True by simp
  next
    case ne: False
    have ne': "xs @ 10 # ys \<noteq> []" by simp
    show ?thesis
    proof (cases "prefix pat xs")
      case True
      let ?r = "drop (length pat) xs"
      let ?n = "if ?r \<noteq> [] \<and> hd ?r = 10 then tl ?r else ?r"
      have len: "length pat \<le> length xs" using True by (rule prefix_length_le)
      have p: "prefix pat (xs @ 10 # ys)" using True by (rule prefix_prefix)
      have d: "drop (length pat) (xs @ 10 # ys) = ?r @ 10 # ys" using len by simp
      have l: "replace_fence pat xs = replace_fence pat ?n"
        by (simp only: replace_fence_unfold[OF ne pat(1)] True if_True)
      have shorter: "length ?n < length xs"
        using len pat(1) ne by (cases pat) auto
      show ?thesis
      proof (cases "?r = []")
        case True
        have "replace_fence pat (xs @ 10 # ys) = replace_fence pat ys"
          by (simp only: replace_fence_unfold[OF ne' pat(1)] p d True if_True append_Nil) simp
        moreover have "replace_fence pat xs = []"
          by (simp only: l True) simp
        ultimately show ?thesis by simp
      next
        case False
        then have h: "hd (?r @ 10 # ys) = hd ?r" "tl (?r @ 10 # ys) = tl ?r @ 10 # ys"
          "?r @ 10 # ys \<noteq> []"
          by simp_all
        have "replace_fence pat (xs @ 10 # ys) = replace_fence pat (?n @ 10 # ys)"
          by (simp only: replace_fence_unfold[OF ne' pat(1)] p d h if_True False
              simp_thms if_distrib[of "\<lambda>z. z @ 10 # ys"])
        then show ?thesis using less.hyps[OF shorter pat] by (simp only: l)
      qed
    next
      case False
      then have np: "\<not> prefix pat (xs @ 10 # ys)"
        using prefix_append_newline[OF pat(2)] by blast
      have t: "hd (xs @ 10 # ys) = hd xs" "tl (xs @ 10 # ys) = tl xs @ 10 # ys"
        using ne by simp_all
      have a: "replace_fence pat (xs @ 10 # ys) = hd xs # replace_fence pat (tl xs @ 10 # ys)"
        by (simp only: replace_fence_unfold[OF ne' pat(1)] np if_False t)
      have b: "replace_fence pat xs = hd xs # replace_fence pat (tl xs)"
        by (simp only: replace_fence_unfold[OF ne pat(1)] False if_False)
      have "length (tl xs) < length xs" using ne by simp
      then show ?thesis using less.hyps[OF _ pat, of "tl xs"] a b by auto
    qed
  qed
qed


lemma replace_fence_no_mark:
  "pat \<noteq> [] \<Longrightarrow> hd pat \<notin> set xs \<Longrightarrow> replace_fence pat xs = xs"
  using replace_fence_skip[of pat xs "[]"] by simp

lemma short_ticks:
  assumes "xs \<noteq> []" "\<not> prefix [96, 96, 96] xs" "prefix [96, 96, 96] (xs @ [96, 96, 96] @ post)"
  shows "xs = [96] \<or> xs = [96, 96]"
proof (cases xs)
  case Nil
  then show ?thesis using assms by simp
next
  case a: (Cons x1 xs1)
  show ?thesis
  proof (cases xs1)
    case Nil
    then show ?thesis using assms a by simp
  next
    case b: (Cons x2 xs2)
    show ?thesis
    proof (cases xs2)
      case Nil
      then show ?thesis using assms a b by simp
    next
      case (Cons x3 xs3)
      then show ?thesis using assms a b by simp
    qed
  qed
qed

lemma replace_fence_ticks_post:
  assumes "96 \<notin> set post"
  shows "replace_fence [96, 96, 96] ([96, 96, 96] @ post) = post
         \<or> replace_fence [96, 96, 96] ([96, 96, 96] @ post) = tl post"
proof -
  have t: "96 \<notin> set (tl post)" using assms by (cases post) auto
  have "replace_fence [96, 96, 96] post = post"
    using assms by (simp add: replace_fence_no_mark)
  moreover have "replace_fence [96, 96, 96] (tl post) = tl post"
    using t by (simp add: replace_fence_no_mark)
  ultimately show ?thesis by (simp add: Let_def)
qed

lemma replace_fence_before_fence:
  "96 \<notin> set post \<Longrightarrow>
   replace_fence [96, 96, 96] (xs @ [96, 96, 96] @ post) = replace_fence [96, 96, 96] xs @ post
   \<or> replace_fence [96, 96, 96] (xs @ [96, 96, 96] @ post)
       = replace_fence [96, 96, 96] xs @ tl post"
proof (induction "length xs" arbitrary: xs rule: less_induct)
  case less
  note post = less.prems
  let ?bt = "[96, 96, 96] :: nat list"
  have bt: "?bt \<noteq> []" by simp
  show ?case
  proof (cases "xs = []")
    case True
    then show ?thesis using replace_fence_ticks_post[OF post] by simp
  next
    case ne: False
    have ne': "xs @ ?bt @ post \<noteq> []" by simp
    show ?thesis
    proof (cases "prefix ?bt xs")
      case True
      let ?r = "drop (length ?bt) xs"
      let ?n = "if ?r \<noteq> [] \<and> hd ?r = 10 then tl ?r else ?r"
      have len: "length ?bt \<le> length xs" using True by (rule prefix_length_le)
      have p: "prefix ?bt (xs @ ?bt @ post)" using True by (rule prefix_prefix)
      have d: "drop (length ?bt) (xs @ ?bt @ post) = ?r @ ?bt @ post" using len by simp
      have l: "replace_fence ?bt xs = replace_fence ?bt ?n"
        by (simp only: replace_fence_unfold[OF ne bt] True if_True)
      have shorter: "length ?n < length xs" using len ne by auto
      show ?thesis
      proof (cases "?r = []")
        case True
        have "replace_fence ?bt (xs @ ?bt @ post) = replace_fence ?bt (?bt @ post)"
          by (simp only: replace_fence_unfold[OF ne' bt] p d True if_True append_Nil) simp
        moreover have "replace_fence ?bt xs = []"
          by (simp only: l True) simp
        ultimately show ?thesis using replace_fence_ticks_post[OF post] by simp
      next
        case False
        then have h: "hd (?r @ ?bt @ post) = hd ?r" "tl (?r @ ?bt @ post) = tl ?r @ ?bt @ post"
          "?r @ ?bt @ post \<noteq> []"
          by simp_all
        have "replace_fence ?bt (xs @ ?bt @ post) = replace_fence ?bt (?n @ ?bt @ post)"
          by (simp only: replace_fence_unfold[OF ne' bt] p d h if_True False
              simp_thms if_distrib[of "\<lambda>z. z @ ?bt @ post"])
        then show ?thesis using less.hyps[OF shorter post] by (simp only: l)
      qed
    next
      case False
      show ?thesis
      proof (cases "prefix ?bt (xs @ ?bt @ post)")
        case True
        have tick: "\<not> prefix ?bt (96 # post)" "\<not> prefix ?bt (96 # 96 # post)"
          using post by (cases post; simp)+
        have keep: "replace_fence ?bt post = post"
          using post by (simp add: replace_fence_no_mark)
        from short_ticks[OF ne False True] show ?thesis
        proof
          assume "xs = [96]"
          then show ?thesis using tick keep by (simp add: Let_def)
        next
          assume "xs = [96, 96]"
          then show ?thesis using tick keep by (simp add: Let_def)
        qed
      next
        case np: False
        have t: "hd (xs @ ?bt @ post) = hd xs" "tl (xs @ ?bt @ post) = tl xs @ ?bt @ post"
          using ne by simp_all
        have a: "replace_fence ?bt (xs @ ?bt @ post)
            = hd xs # replace_fence ?bt (tl xs @ ?bt @ post)"
          by (simp only: replace_fence_unfold[OF ne' bt] np if_False t)
        have b: "replace_fence ?bt xs = hd xs # replace_fence ?bt (tl xs)"
          by (simp only: replace_fence_unfold[OF ne bt] False if_False)
        have "length (tl xs) < length xs" using ne by simp
        then show ?thesis using less.hyps[OF _ post, of "tl xs"] a b by auto
      qed
    qed
  qed
qed


lemma whitespace_has_no_mark:
  "list_all is_js_whitespace w \<Longrightarrow> 96 \<notin> set w \<and> 106 \<notin> set w \<and> 123 \<notin> set w \<and> 125 \<notin> set w"
  by (induction w) (auto simp: is_js_whitespace_def)

lemma trim_between_whitespace:
  assumes "list_all is_js_whitespace pre" "list_all is_js_whitespace post"
  shows "trim (pre @ xs @ post) = trim xs"
proof -
  have pre: "\<And>x. x \<in> set pre \<Longrightarrow> is_js_whitespace x"
    and post: "\<And>x. x \<in> set post \<Longrightarrow> is_js_whitespace x"
    and rpost: "\<And>x. x \<in> set (rev post) \<Longrightarrow> is_js_whitespace x"
    using assms by (auto simp: list_all_iff)
  have a: "dropWhile is_js_whitespace (pre @ xs @ post) = dropWhile is_js_whitespace (xs @ post)"
    using pre by (rule dropWhile_append2)
  show ?thesis
  proof (cases "\<forall>x \<in> set xs. is_js_whitespace x")
    case True
    then have "dropWhile is_js_whitespace (xs @ post) = []"
      using post by auto
    moreover have "dropWhile is_js_whitespace xs = []" using True by simp
    ultimately show ?thesis by (simp only: trim_def a)
  next
    case False
    then obtain x where "x \<in> set xs" "\<not> is_js_whitespace x" by blast
    then have "dropWhile is_js_whitespace (xs @ post) = dropWhile is_js_whitespace xs @ post"
      by (rule dropWhile_append1)
    then have "rev (dropWhile is_js_whitespace (xs @ post))
        = rev post @ rev (dropWhile is_js_whitespace xs)" by simp
    then have "dropWhile is_js_whitespace (rev (dropWhile is_js_whitespace (xs @ post)))
        = dropWhile is_js_whitespace (rev (dropWhile is_js_whitespace xs))"
      using dropWhile_append2[of "rev post" is_js_whitespace, OF rpost] by simp
    then show ?thesis by (simp only: trim_def a)
  qed
qed

lemma strip_json_fence:
  assumes "list_all is_js_whitespace pre" "list_all is_js_whitespace post"
    and "tag = [] \<or> tag = js ''json''"
  shows "\<exists>t. (t = [] \<or> t = [10])
           \<and> replace_fence (js ''```json'') (fenced pre tag j post)
               = pre @ (if tag = [] then [96, 96, 96, 10] else [])
                   @ replace_fence (js ''```json'') j @ t @ [96, 96, 96] @ post"
proof -
  let ?p = "[96, 96, 96, 106, 115, 111, 110] :: nat list"
  have p: "js ''```json'' = ?p" by (simp add: js_def)
  have pre: "96 \<notin> set pre" and post: "96 \<notin> set post" "106 \<notin> set post"
    using assms whitespace_has_no_mark by blast+
  have tail: "replace_fence ?p ([96, 96, 96] @ post) = [96, 96, 96] @ post"
  proof -
    have "\<not> prefix ?p (96 # 96 # 96 # post)" "\<not> prefix ?p (96 # 96 # post)"
      "\<not> prefix ?p (96 # post)"
      using post by (cases post; simp)+
    moreover have "replace_fence ?p post = post"
      using post by (simp add: replace_fence_no_mark)
    ultimately show ?thesis by simp
  qed
  have mid: "replace_fence ?p (j @ 10 # [96, 96, 96] @ post)
        = replace_fence ?p j @ 10 # [96, 96, 96] @ post
      \<or> replace_fence ?p (j @ 10 # [96, 96, 96] @ post)
        = replace_fence ?p j @ [96, 96, 96] @ post"
    using replace_fence_before_newline[of ?p j "[96, 96, 96] @ post"] tail by simp
  have head: "replace_fence ?p (fenced pre tag j post)
      = pre @ (if tag = [] then [96, 96, 96, 10] else [])
          @ replace_fence ?p (j @ 10 # [96, 96, 96] @ post)"
  proof (cases "tag = []")
    case True
    have "replace_fence ?p (96 # 96 # 96 # 10 # xs) = 96 # 96 # 96 # 10 # replace_fence ?p xs"
      for xs by simp
    then show ?thesis using True pre
      by (simp add: fenced_def js_def replace_fence_skip)
  next
    case False
    then have t: "tag = [106, 115, 111, 110]" using assms(3) by (simp add: js_def)
    have "replace_fence ?p (?p @ 10 # xs) = replace_fence ?p xs" for xs
      by (rule replace_fence_head) simp
    then have "replace_fence ?p (96 # 96 # 96 # 106 # 115 # 111 # 110 # 10 # xs)
        = replace_fence ?p xs" for xs
      by simp
    then show ?thesis using t pre
      by (simp add: fenced_def js_def replace_fence_skip del: replace_fence.simps)
  qed
  from mid show ?thesis
  proof
    assume "replace_fence ?p (j @ 10 # [96, 96, 96] @ post)
        = replace_fence ?p j @ 10 # [96, 96, 96] @ post"
    then have "replace_fence (js ''```json'') (fenced pre tag j post)
               = pre @ (if tag = [] then [96, 96, 96, 10] else [])
                   @ replace_fence (js ''```json'') j @ [10] @ [96, 96, 96] @ post"
      using head by (simp only: p) simp
    then show ?thesis by blast
  next
    assume "replace_fence ?p (j @ 10 # [96, 96, 96] @ post)
        = replace_fence ?p j @ [96, 96, 96] @ post"
    then have "replace_fence (js ''```json'') (fenced pre tag j post)
               = pre @ (if tag = [] then [96, 96, 96, 10] else [])
                   @ replace_fence (js ''```json'') j @ [] @ [96, 96, 96] @ post"
      using head by (simp only: p) simp
    then show ?thesis by blast
  qed
qed

lemma strip_plain_fence:
  assumes "list_all is_js_whitespace pre" "list_all is_js_whitespace post"
    and "t = [] \<or> t = [10]"
    and "h = [] \<or> h = [96, 96, 96, 10]"
  shows "\<exists>w. list_all is_js_whitespace w
           \<and> replace_fence (js ''```'') (pre @ h @ z @ t @ [96, 96, 96] @ post)
               = pre @ replace_fence (js ''```'') z @ w"
proof -
  let ?bt = "[96, 96, 96] :: nat list"
  have b: "js ''```'' = ?bt" by (simp add: js_def)
  have pre: "96 \<notin> set pre" and post: "96 \<notin> set post"
    using assms whitespace_has_no_mark by blast+
  have tl_ws: "list_all is_js_whitespace (tl post)"
    using assms(2) by (cases post) simp_all
  have nl_ws: "list_all is_js_whitespace (10 # post)" "list_all is_js_whitespace (10 # tl post)"
    using assms(2) tl_ws by (simp_all add: is_js_whitespace_def)
  have head: "replace_fence ?bt (pre @ h @ xs) = pre @ replace_fence ?bt xs" for xs
  proof -
    have "replace_fence ?bt (?bt @ 10 # xs) = replace_fence ?bt xs"
      by (rule replace_fence_head) simp
    then have "replace_fence ?bt (h @ xs) = replace_fence ?bt xs"
      using assms(4) by auto
    then show ?thesis using pre by (simp add: replace_fence_skip)
  qed
  have close: "replace_fence ?bt (?bt @ post) = post \<or> replace_fence ?bt (?bt @ post) = tl post"
    by (rule replace_fence_ticks_post[OF post])
  have "\<exists>w. list_all is_js_whitespace w
      \<and> replace_fence ?bt (z @ t @ ?bt @ post) = replace_fence ?bt z @ w"
  proof (cases "t = []")
    case True
    then show ?thesis
      using replace_fence_before_fence[OF post, of z] assms(2) tl_ws by auto
  next
    case False
    then have t: "t = [10]" using assms(3) by simp
    have "replace_fence ?bt (z @ 10 # ?bt @ post)
          = replace_fence ?bt z @ 10 # replace_fence ?bt (?bt @ post)
        \<or> replace_fence ?bt (z @ 10 # ?bt @ post)
          = replace_fence ?bt z @ replace_fence ?bt (?bt @ post)"
      by (rule replace_fence_before_newline) simp_all
    then consider
      (a) "replace_fence ?bt (z @ t @ ?bt @ post) = replace_fence ?bt z @ 10 # post"
      | (b) "replace_fence ?bt (z @ t @ ?bt @ post) = replace_fence ?bt z @ 10 # tl post"
      | (c) "replace_fence ?bt (z @ t @ ?bt @ post) = replace_fence ?bt z @ post"
      | (d) "replace_fence ?bt (z @ t @ ?bt @ post) = replace_fence ?bt z @ tl post"
      using close t by (auto simp del: replace_fence.simps)
    then show ?thesis
    proof cases
      case a
      then show ?thesis using nl_ws by blast
    next
      case b
      then show ?thesis using nl_ws by blast
    next
      case c
      then show ?thesis using assms(2) by blast
    next
      case d
      then show ?thesis using tl_ws by blast
    qed
  qed
  then show ?thesis using head[of "z @ t @ ?bt @ post"] by (simp only: b) auto
qed

lemma cleanContent_fenced:
  assumes "list_all is_js_whitespace pre" "list_all is_js_whitespace post"
    and "tag = [] \<or> tag = js ''json''"
  shows "cleanContent (fenced pre tag j post) = cleanContent j"
proof -
  obtain t where t: "t = [] \<or> t = [10]"
    and one: "replace_fence (js ''```json'') (fenced pre tag j post)
               = pre @ (if tag = [] then [96, 96, 96, 10] else [])
                   @ replace_fence (js ''```json'') j @ t @ [96, 96, 96] @ post"
    using strip_json_fence[OF assms] by blast
  have h: "(if tag = [] then [96, 96, 96, 10] else []) = []
      \<or> (if tag = [] then [96, 96, 96, 10] else []) = [96, 96, 96, 10 :: nat]"
    by simp
  obtain w where w: "list_all is_js_whitespace w"
    and two: "replace_fence (js ''```'')
                (pre @ (if tag = [] then [96, 96, 96, 10] else [])
                   @ replace_fence (js ''```json'') j @ t @ [96, 96, 96] @ post)
              = pre @ replace_fence (js ''```'') (replace_fence (js ''```json'') j) @ w"
    using strip_plain_fence[OF assms(1,2) t h] by blast
  show ?thesis
    by (simp only: cleanContent_def one two trim_between_whitespace[OF assms(1) w])
qed

lemma brace_match_between:
  assumes a: "123 \<notin> set a" and b: "123 \<notin> set b" "125 \<notin> set b"
  shows "brace_match (a @ j @ b) = brace_match j"
proof -
  have a': "\<And>x. x \<in> set a \<Longrightarrow> x \<noteq> 123" using a by auto
  have rb: "\<And>x. x \<in> set (rev b) \<Longrightarrow> x \<noteq> 125" using b by auto
  have skip: "dropWhile (\<lambda>c. c \<noteq> 123) (a @ j @ b) = dropWhile (\<lambda>c. c \<noteq> 123) (j @ b)"
    using a' by (rule dropWhile_append2)
  show ?thesis
  proof (cases "123 \<in> set j")
    case False
    then have "dropWhile (\<lambda>c. c \<noteq> 123) (j @ b) = []" using b by auto
    moreover have "dropWhile (\<lambda>c. c \<noteq> 123) j = []" using False by auto
    ultimately show ?thesis by (simp only: brace_match_def skip)
  next
    case True
    then have d: "dropWhile (\<lambda>c. c \<noteq> 123) (j @ b) = dropWhile (\<lambda>c. c \<noteq> 123) j @ b"
      by (intro dropWhile_append1[of 123]) simp_all
    obtain c r where cr: "dropWhile (\<lambda>c. c \<noteq> 123) j = c # r"
      using True by (cases "dropWhile (\<lambda>c. c \<noteq> 123) j") auto
    have m: "125 \<in> set (r @ b) \<longleftrightarrow> 125 \<in> set r" using b by auto
    have "dropWhile (\<lambda>c. c \<noteq> 125) (rev b @ rev r) = dropWhile (\<lambda>c. c \<noteq> 125) (rev r)"
      using rb by (rule dropWhile_append2)
    then have e: "dropWhile (\<lambda>c. c \<noteq> 125) (rev (r @ b)) = dropWhile (\<lambda>c. c \<noteq> 125) (rev r)"
      by simp
    have "brace_match (a @ j @ b)
        = (if 125 \<in> set (r @ b)
           then Some (c # rev (dropWhile (\<lambda>c. c \<noteq> 125) (rev (r @ b)))) else None)"
      by (simp only: brace_match_def skip d cr append_Cons list.case)
    also have "\<dots> = (if 125 \<in> set r
           then Some (c # rev (dropWhile (\<lambda>c. c \<noteq> 125) (rev r))) else None)"
      by (simp only: m e)
    also have "\<dots> = brace_match j" by (simp only: brace_match_def cr list.case)
    finally show ?thesis .
  qed
qed

lemma brace_match_fenced:
  assumes "list_all is_js_whitespace pre" "list_all is_js_whitespace post"
    and "tag = [] \<or> tag = js ''json''"
  shows "brace_match (fenced pre tag j post) = brace_match j"
proof -
  have f: "fenced pre tag j post = (pre @ js ''```'' @ tag @ [10]) @ j @ ([10] @ js ''```'' @ post)"
    by (simp add: fenced_def)
  have a: "123 \<notin> set (pre @ js ''```'' @ tag @ [10])"
    using whitespace_has_no_mark[OF assms(1)] assms(3) by (auto simp: js_def)
  have b: "123 \<notin> set ([10] @ js ''```'' @ post)" "125 \<notin> set ([10] @ js ''```'' @ post)"
    using whitespace_has_no_mark[OF assms(2)] by (auto simp: js_def)
  show ?thesis by (simp only: f brace_match_between[OF a b])
qed

lemma replace_fence_absent:
  "pat \<noteq> [] \<Longrightarrow> \<forall>a b. xs \<noteq> a @ pat @ b \<Longrightarrow> replace_fence pat xs = xs"
proof (induction xs)
  case Nil
  then show ?case by simp
next
  case (Cons c cs)
  have "\<not> prefix pat (c # cs)"
  proof
    assume "prefix pat (c # cs)"
    then obtain b where "c # cs = [] @ pat @ b" by (auto simp: prefix_def)
    then show False using Cons.prems(2) by blast
  qed
  moreover have "\<forall>a b. cs \<noteq> a @ pat @ b"
  proof (intro allI notI)
    fix a b
    assume "cs = a @ pat @ b"
    then have "c # cs = (c # a) @ pat @ b" by simp
    then show False using Cons.prems(2) by blast
  qed
  ultimately show ?case using Cons by simp
qed

lemma cleanContent_without_marks:
  assumes "\<forall>a b. j \<noteq> a @ js ''```'' @ b"
  shows "cleanContent j = trim j"
proof -
  have "\<forall>a b. j \<noteq> a @ js ''```json'' @ b"
  proof (intro allI notI)
    fix a b
    assume "j = a @ js ''```json'' @ b"
    then have "j = a @ js ''```'' @ (js ''json'' @ b)" by (simp add: js_def)
    then show False using assms by blast
  qed
  then have "replace_fence (js ''```json'') j = j"
    by (intro replace_fence_absent) (simp_all add: js_def)
  moreover have "replace_fence (js ''```'') j = j"
    using assms by (intro replace_fence_absent) (simp_all add: js_def)
  ultimately show ?thesis by (simp add: cleanContent_def)
qed

text \<open>
  C8, as the code has it. A reply in a code fence, with or without the \<^verbatim>\<open>json\<close> tag,
  with the line feeds around the text and any white space around the fence, is
  recovered as the same text without the fence is: the cleaned text is the same, so the
  direct parse, the structure check, the brace extraction and the response are the
  same. This holds for every text \<open>j\<close>, JSON or not. The recovery removes every fence
  marker, also one that stands inside \<open>j\<close>. When \<open>j\<close> holds no marker, the cleaned
  text is \<open>j\<close> trimmed, and a JSON text \<open>j\<close> in its fence parses to the value
  \<^verbatim>\<open>JSON.parse\<close> gives for \<open>j\<close>; with an \<^verbatim>\<open>ideas\<close> array in it, that value is the
  body of the 200 response.
\<close>

theorem fenced_reply_parses_like_unfenced:
  "list_all is_js_whitespace pre \<and> list_all is_js_whitespace post
   \<and> (tag = [] \<or> tag = js ''json'') \<longrightarrow>
     cleanContent (fenced pre tag j post) = cleanContent j
     \<and> JSON_parse (cleanContent (fenced pre tag j post)) = JSON_parse (cleanContent j)
     \<and> direct_parse (JStr (fenced pre tag j post)) = direct_parse (JStr j)
     \<and> brace_match (fenced pre tag j post) = brace_match j
     \<and> parse_response (JStr (fenced pre tag j post)) = parse_response (JStr j)
     \<and> ((\<forall>a b. j \<noteq> a @ js ''```'' @ b) \<longrightarrow>
          cleanContent (fenced pre tag j post) = trim j
          \<and> JSON_parse (cleanContent (fenced pre tag j post)) = JSON_parse (trim j)
          \<and> (\<forall>v. JSON_parse j = Some v \<longrightarrow>
                JSON_parse (cleanContent (fenced pre tag j post)) = Some v)
          \<and> (JSON_parse (trim j) = None \<longrightarrow>
                direct_parse (JStr (fenced pre tag j post)) = Inl SyntaxError)
          \<and> (\<forall>v xs. JSON_parse j = Some v \<and> get_prop v (js ''ideas'') = Inr (JArr xs) \<longrightarrow>
                direct_parse (JStr (fenced pre tag j post)) = Inr v
                \<and> parse_response (JStr (fenced pre tag j post))
                    = Inr \<lparr>status = 200, headers = json_headers, body = Some v\<rparr>))"
proof
  assume h: "list_all is_js_whitespace pre \<and> list_all is_js_whitespace post
   \<and> (tag = [] \<or> tag = js ''json'')"
  let ?f = "fenced pre tag j post"
  have c: "cleanContent ?f = cleanContent j"
    using h cleanContent_fenced by blast
  have jp: "JSON_parse (cleanContent ?f) = JSON_parse (cleanContent j)"
    by (simp only: c)
  have b: "brace_match ?f = brace_match j"
    using h brace_match_fenced by blast
  have d: "direct_parse (JStr ?f) = direct_parse (JStr j)"
    by (simp add: direct_parse_def c)
  have p: "parse_response (JStr ?f) = parse_response (JStr j)"
    by (simp add: parse_response_def d b split: sum.splits)
  have t: "(\<forall>a b. j \<noteq> a @ js ''```'' @ b) \<longrightarrow>
          cleanContent ?f = trim j
          \<and> JSON_parse (cleanContent ?f) = JSON_parse (trim j)
          \<and> (\<forall>v. JSON_parse j = Some v \<longrightarrow> JSON_parse (cleanContent ?f) = Some v)
          \<and> (JSON_parse (trim j) = None \<longrightarrow> direct_parse (JStr ?f) = Inl SyntaxError)
          \<and> (\<forall>v xs. JSON_parse j = Some v \<and> get_prop v (js ''ideas'') = Inr (JArr xs) \<longrightarrow>
                direct_parse (JStr ?f) = Inr v
                \<and> parse_response (JStr ?f)
                    = Inr \<lparr>status = 200, headers = json_headers, body = Some v\<rparr>)"
  proof
    assume "\<forall>a b. j \<noteq> a @ js ''```'' @ b"
    then have ct: "cleanContent ?f = trim j" using c cleanContent_without_marks by simp
    have link: "JSON_parse (cleanContent ?f) = Some v" if "JSON_parse j = Some v" for v
      using JSON_parse_trim[OF that] by (simp add: ct)
    have none: "JSON_parse (trim j) = None \<longrightarrow> direct_parse (JStr ?f) = Inl SyntaxError"
      by (simp add: direct_parse_def ct)
    have some: "direct_parse (JStr ?f) = Inr v
                \<and> parse_response (JStr ?f)
                    = Inr \<lparr>status = 200, headers = json_headers, body = Some v\<rparr>"
      if "JSON_parse j = Some v \<and> get_prop v (js ''ideas'') = Inr (JArr xs)" for v xs
    proof -
      have "JSON_parse (cleanContent ?f) = Some v" using that link by blast
      then have "direct_parse (JStr ?f) = Inr v"
        using that by (simp add: direct_parse_def bind_exn_def)
      then show ?thesis by (simp add: parse_response_def ok_response_def)
    qed
    show "cleanContent ?f = trim j
          \<and> JSON_parse (cleanContent ?f) = JSON_parse (trim j)
          \<and> (\<forall>v. JSON_parse j = Some v \<longrightarrow> JSON_parse (cleanContent ?f) = Some v)
          \<and> (JSON_parse (trim j) = None \<longrightarrow> direct_parse (JStr ?f) = Inl SyntaxError)
          \<and> (\<forall>v xs. JSON_parse j = Some v \<and> get_prop v (js ''ideas'') = Inr (JArr xs) \<longrightarrow>
                direct_parse (JStr ?f) = Inr v
                \<and> parse_response (JStr ?f)
                    = Inr \<lparr>status = 200, headers = json_headers, body = Some v\<rparr>)"
      using ct link none some by simp
  qed
  show "cleanContent ?f = cleanContent j
     \<and> JSON_parse (cleanContent ?f) = JSON_parse (cleanContent j)
     \<and> direct_parse (JStr ?f) = direct_parse (JStr j)
     \<and> brace_match ?f = brace_match j
     \<and> parse_response (JStr ?f) = parse_response (JStr j)
     \<and> ((\<forall>a b. j \<noteq> a @ js ''```'' @ b) \<longrightarrow>
          cleanContent ?f = trim j
          \<and> JSON_parse (cleanContent ?f) = JSON_parse (trim j)
          \<and> (\<forall>v. JSON_parse j = Some v \<longrightarrow> JSON_parse (cleanContent ?f) = Some v)
          \<and> (JSON_parse (trim j) = None \<longrightarrow> direct_parse (JStr ?f) = Inl SyntaxError)
          \<and> (\<forall>v xs. JSON_parse j = Some v \<and> get_prop v (js ''ideas'') = Inr (JArr xs) \<longrightarrow>
                direct_parse (JStr ?f) = Inr v
                \<and> parse_response (JStr ?f)
                    = Inr \<lparr>status = 200, headers = json_headers, body = Some v\<rparr>))"
    by (intro conjI) (rule c jp d b p t)+
qed

lemma ideas_reply_without_marks: "\<forall>a b. ideas_reply \<noteq> a @ js ''```'' @ b"
proof (intro allI notI)
  fix a b
  assume e: "ideas_reply = a @ js ''```'' @ b"
  have "96 \<in> set (a @ js ''```'' @ b)" by (simp add: js_def)
  then have "96 \<in> set ideas_reply" by (simp only: e[symmetric])
  then show False by (simp add: ideas_reply_def js_def)
qed

lemma parse_ideas_reply: "JSON_parse ideas_reply = Some ideas_object"
  by (simp add: ideas_reply_def ideas_object_def JSON_parse_def js_def skip_ws_def
      is_json_ws_def escape_char_def)

lemma parse_padded_ideas_reply: "JSON_parse ([32, 10] @ ideas_reply @ [10]) = Some ideas_object"
  by (simp add: ideas_reply_def ideas_object_def JSON_parse_def js_def skip_ws_def
      is_json_ws_def escape_char_def)

lemma padded_ideas_reply_without_marks:
  "\<forall>a b. [32, 10] @ ideas_reply @ [10] \<noteq> a @ js ''```'' @ b"
proof (intro allI notI)
  fix a b
  assume e: "[32, 10] @ ideas_reply @ [10] = a @ js ''```'' @ b"
  have "96 \<in> set (a @ js ''```'' @ b)" by (simp add: js_def)
  then have "96 \<in> set ([32, 10] @ ideas_reply @ [10])" by (simp only: e[symmetric])
  then show False by (simp add: ideas_reply_def js_def)
qed

theorem fenced_reply_parses_like_unfenced_witness:
  "fenced [] (js ''json'') (js ''{}'') [] = js ''```json'' @ [10] @ js ''{}'' @ [10] @ js ''```''
   \<and> JSON_parse (cleanContent (fenced [] (js ''json'') ideas_reply [])) = Some ideas_object
   \<and> JSON_parse ideas_reply = Some ideas_object
   \<and> parse_response (JStr (fenced [] (js ''json'') ideas_reply []))
       = Inr \<lparr>status = 200, headers = json_headers, body = Some ideas_object\<rparr>
   \<and> parse_response (JStr (fenced [10] [] ([32, 10] @ ideas_reply @ [10]) [10, 32]))
       = Inr \<lparr>status = 200, headers = json_headers, body = Some ideas_object\<rparr>"
proof -
  have f: "fenced [] (js ''json'') (js ''{}'') [] = js ''```json'' @ [10] @ js ''{}'' @ [10] @ js ''```''"
    by (simp add: fenced_def js_def)
  have k: "JSON_parse ideas_reply = Some ideas_object
      \<and> get_prop ideas_object (js ''ideas'') = Inr (JArr [])"
    by (simp add: parse_ideas_reply ideas_object_def)
  have k': "JSON_parse ([32, 10] @ ideas_reply @ [10]) = Some ideas_object
      \<and> get_prop ideas_object (js ''ideas'') = Inr (JArr [])"
    by (simp only: parse_padded_ideas_reply) (simp add: ideas_object_def)
  have w: "list_all is_js_whitespace [] \<and> list_all is_js_whitespace []
      \<and> (js ''json'' = [] \<or> js ''json'' = js ''json'')"
    "list_all is_js_whitespace [10] \<and> list_all is_js_whitespace [10, 32]
      \<and> (([]::jsstring) = [] \<or> [] = js ''json'')"
    by (simp_all add: is_js_whitespace_def)
  have a1: "JSON_parse (cleanContent (fenced [] (js ''json'') ideas_reply [])) = Some ideas_object"
    using fenced_reply_parses_like_unfenced
      [where pre = "[]" and post = "[]" and tag = "js ''json''" and j = ideas_reply]
      w(1) ideas_reply_without_marks k by blast
  have a2: "parse_response (JStr (fenced [] (js ''json'') ideas_reply []))
       = Inr \<lparr>status = 200, headers = json_headers, body = Some ideas_object\<rparr>"
    using fenced_reply_parses_like_unfenced
      [where pre = "[]" and post = "[]" and tag = "js ''json''" and j = ideas_reply]
      w(1) ideas_reply_without_marks k by blast
  have b: "parse_response (JStr (fenced [10] [] ([32, 10] @ ideas_reply @ [10]) [10, 32]))
       = Inr \<lparr>status = 200, headers = json_headers, body = Some ideas_object\<rparr>"
    using fenced_reply_parses_like_unfenced
      [where pre = "[10]" and post = "[10, 32]" and tag = "[]"
         and j = "[32, 10] @ ideas_reply @ [10]"]
      w(2) padded_ideas_reply_without_marks k' by blast
  show ?thesis using f a1 a2 b k by simp
qed

text \<open>
  C8 as stated fails: the fence markers are removed wherever they stand, so a JSON text
  with a marker inside a string does not parse, in its fence, to what it parses to
  without the fence. The reply \<^verbatim>\<open>{"ideas": ["```"]}\<close> in a \<^verbatim>\<open>json\<close> fence is answered
  with the idea \<^verbatim>\<open>""\<close>.
\<close>

theorem fenced_marker_inside_counterexample:
  "JSON_parse tick_reply = Some (JObj [(js ''ideas'', JArr [JStr (js ''```'')])])
   \<and> JSON_parse (cleanContent (fenced [] (js ''json'') tick_reply []))
       = Some (JObj [(js ''ideas'', JArr [JStr []])])
   \<and> JSON_parse (cleanContent (fenced [] (js ''json'') tick_reply [])) \<noteq> JSON_parse tick_reply
   \<and> parse_response (JStr (fenced [] (js ''json'') tick_reply []))
       = Inr \<lparr>status = 200, headers = json_headers,
              body = Some (JObj [(js ''ideas'', JArr [JStr []])])\<rparr>"
proof -
  have p: "JSON_parse tick_reply = Some (JObj [(js ''ideas'', JArr [JStr (js ''```'')])])"
    by (simp add: tick_reply_def JSON_parse_def js_def skip_ws_def is_json_ws_def escape_char_def)
  have c: "cleanContent (fenced [] (js ''json'') tick_reply []) = cleanContent tick_reply"
    by (rule cleanContent_fenced) simp_all
  have s: \<open>cleanContent tick_reply = js ''{"ideas": [""]}''\<close>
    by (simp add: tick_reply_def cleanContent_def js_def trim_def is_js_whitespace_def)
  have q: \<open>JSON_parse (js ''{"ideas": [""]}'') = Some (JObj [(js ''ideas'', JArr [JStr []])])\<close>
    by (simp add: JSON_parse_def js_def skip_ws_def is_json_ws_def escape_char_def)
  have i: "get_prop (JObj [(js ''ideas'', JArr [JStr []])]) (js ''ideas'') = Inr (JArr [JStr []])"
    by simp
  have d: "direct_parse (JStr (fenced [] (js ''json'') tick_reply []))
        = Inr (JObj [(js ''ideas'', JArr [JStr []])])"
    by (simp add: direct_parse_def c s q i bind_exn_def)
  have r: "parse_response (JStr (fenced [] (js ''json'') tick_reply []))
       = Inr \<lparr>status = 200, headers = json_headers,
              body = Some (JObj [(js ''ideas'', JArr [JStr []])])\<rparr>"
    using d by (simp add: parse_response_def ok_response_def)
  have n: "JObj [(js ''ideas'', JArr [JStr []])] \<noteq> JObj [(js ''ideas'', JArr [JStr (js ''```'')])]"
    by (simp add: js_def)
  show ?thesis using p c s q r n by simp
qed

end
